theory Spec2Isabelle
  imports Complex_Main "HOL-Library.Word" "HOL-Library.Log_Nat"
begin

unbundle bit_operations_syntax

section \<open>Data model\<close>

text \<open>
  A sample is a numpy array of dtype \<open>uint8\<close>; a cohort is a Python list of samples.
  A capture is a Python \<open>str\<close>: a list of code points, each a natural number.
  A finite double is modelled by the rational number it denotes, and every floating-point
  operation by the exact operation followed by rounding to the nearest double
  (\<open>fl64\<close> below). Where the source only compares one correctly rounded quotient of
  counts with a threshold, the exact quotient is kept.
\<close>

type_synonym uint8 = "8 word"

datatype py_error = ValueError | TypeError | IndexError

text \<open>Python's \<open>ord\<close>, and the code points of a literal.\<close>

abbreviation ord :: "char \<Rightarrow> nat" where
  "ord c \<equiv> of_char c"

definition code_points :: "string \<Rightarrow> nat list" where
  "code_points s = map ord s"

section \<open>BitDecoder: \<open>load_sram_file\<close>\<close>

text \<open>
  Python's \<open>int(s, 16)\<close> on a \<open>str\<close> works in two steps. First every code point from 127
  on is replaced: by a space when the Unicode database classifies it as white space, by
  the ASCII digit of its value when the database gives it a decimal digit value, and
  otherwise the conversion fails. The two tables of the Unicode database, which belong to
  the Python interpreter and change with its version, are parameters of the model.
  (The code point 127 is a control character, in no version white space or a digit.)
\<close>

record unicode_db =
  uc_isspace :: "nat \<Rightarrow> bool"
  uc_decimal :: "nat \<Rightarrow> nat option"

definition to_ascii :: "unicode_db \<Rightarrow> nat \<Rightarrow> nat option" where
  "to_ascii U ch =
     (if ch < 127 then Some ch
      else if uc_isspace U ch then Some (ord CHR '' '')
      else case uc_decimal U ch of
             None \<Rightarrow> None
           | Some decimal \<Rightarrow> if decimal < 10 then Some (ord CHR ''0'' + decimal) else None)"

text \<open>
  Then the ASCII text is parsed: surrounding ASCII white space (tab, line feed, vertical
  tab, form feed, carriage return, space) is skipped, an optional sign and an optional
  \<open>0x\<close> prefix are read, then hexadecimal digits, with single underscores allowed
  between digits (and after the prefix). \<open>None\<close> is \<open>ValueError\<close>.
\<close>

definition py_isspace :: "nat \<Rightarrow> bool" where
  "py_isspace c = (c \<in> set [9, 10, 11, 12, 13, 32])"

definition hex_val :: "nat \<Rightarrow> int option" where
  "hex_val n =
     (if 48 \<le> n \<and> n \<le> 57 then Some (int n - 48)
      else if 97 \<le> n \<and> n \<le> 102 then Some (int n - 87)
      else if 65 \<le> n \<and> n \<le> 70 then Some (int n - 55)
      else None)"

fun py_digits :: "int \<Rightarrow> nat list \<Rightarrow> int option" where
  "py_digits acc [] = Some acc"
| "py_digits acc [c] =
     (case hex_val c of None \<Rightarrow> None | Some d \<Rightarrow> Some (16 * acc + d))"
| "py_digits acc (c # d # cs) =
     (case hex_val c of
        None \<Rightarrow> None
      | Some v \<Rightarrow>
          if d = ord CHR ''_'' then (if cs = [] then None else py_digits (16 * acc + v) cs)
          else py_digits (16 * acc + v) (d # cs))"

definition py_strip :: "nat list \<Rightarrow> nat list" where
  "py_strip s = rev (dropWhile py_isspace (rev (dropWhile py_isspace s)))"

definition py_long_from_string :: "nat list \<Rightarrow> int option" where
  "py_long_from_string s =
     (let t = py_strip s;
          (sign, u) = (case t of
                         c # r \<Rightarrow> if c = ord CHR ''-'' then (- 1, r)
                                  else if c = ord CHR ''+'' then (1, r) else (1, t)
                       | [] \<Rightarrow> (1, t));
          v = (case u of
                 a # b # r \<Rightarrow>
                   if a = ord CHR ''0'' \<and> (b = ord CHR ''x'' \<or> b = ord CHR ''X'')
                   then (case r of c # r' \<Rightarrow> if c = ord CHR ''_'' then r' else r | [] \<Rightarrow> r)
                   else u
               | _ \<Rightarrow> u)
      in if v = [] then None else map_option (\<lambda>n. sign * n) (py_digits 0 v))"

definition py_int16 :: "unicode_db \<Rightarrow> nat list \<Rightarrow> int option" where
  "py_int16 U s =
     (case those (map (to_ascii U) s) of
        None \<Rightarrow> None
      | Some t \<Rightarrow> py_long_from_string t)"

text \<open>
  The loop \<open>for i in range(0, len(hex_str) - 1, 2)\<close>: every slice \<open>hex_str[i:i+2]\<close> has
  two characters; a slice that \<open>int\<close> rejects is skipped, and a last single character
  is never read.
\<close>

fun parse_pairs :: "unicode_db \<Rightarrow> nat list \<Rightarrow> int list" where
  "parse_pairs U (a # b # rest) =
     (case py_int16 U [a, b] of
        Some byte \<Rightarrow> byte # parse_pairs U rest
      | None \<Rightarrow> parse_pairs U rest)"
| "parse_pairs U _ = []"

text \<open>\<open>for i in range(7, -1, -1): bits.append((byte >> i) & 1)\<close>, stored as \<open>uint8\<close>.\<close>

definition byte_bits :: "int \<Rightarrow> uint8 list" where
  "byte_bits byte = map (\<lambda>i. word_of_int (drop_bit i byte AND 1)) [7, 6, 5, 4, 3, 2, 1, 0]"

definition strip_separators :: "nat list \<Rightarrow> nat list" where
  "strip_separators content =
     filter (\<lambda>c. c \<noteq> ord CHR '' '' \<and> c \<noteq> ord (CHR 0x0D) \<and> c \<noteq> ord (CHR 0x0A)
                 \<and> c \<noteq> ord CHR ''.'') content"

text \<open>\<open>load_sram_file\<close>, from the content of the file on.\<close>

definition load_sram_file :: "unicode_db \<Rightarrow> nat list \<Rightarrow> uint8 list" where
  "load_sram_file U content = concat (map byte_bits (parse_pairs U (strip_separators content)))"

text \<open>
  The tables of Unicode 14.0, the database of CPython 3.11, to run the decoder on: the
  code points that are white space, and the code points with decimal digit value 0, each
  of which starts a run of ten digits.
\<close>

definition whitespace_points :: "nat list" where
  "whitespace_points =
     [9, 10, 11, 12, 13, 28, 29, 30, 31, 32, 133, 160, 5760, 8192, 8193, 8194, 8195, 8196,
      8197, 8198, 8199, 8200, 8201, 8202, 8232, 8233, 8239, 8287, 12288]"

definition decimal_zero_points :: "nat list" where
  "decimal_zero_points =
     [48, 1632, 1776, 1984, 2406, 2534, 2662, 2790, 2918, 3046, 3174, 3302, 3430, 3558,
      3664, 3792, 3872, 4160, 4240, 6112, 6160, 6470, 6608, 6784, 6800, 6992, 7088, 7232,
      7248, 42528, 43216, 43264, 43472, 43504, 43600, 44016, 65296, 66720, 68912, 69734,
      69872, 69942, 70096, 70384, 70736, 70864, 71248, 71360, 71472, 71904, 72016, 72784,
      73040, 73120, 92768, 92864, 93008, 120782, 120792, 120802, 120812, 120822, 123200,
      123632, 125264, 130032]"

definition unicode14 :: unicode_db where
  "unicode14 =
     \<lparr> uc_isspace = (\<lambda>ch. ch \<in> set whitespace_points),
       uc_decimal = (\<lambda>ch. map_option (\<lambda>z. ch - z)
                             (find (\<lambda>z. z \<le> ch \<and> ch < z + 10) decimal_zero_points)) \<rparr>"

text \<open>
  What the claims say about the decoder, in their words: the aligned two-character
  slices of the stripped text, the slices made of two hexadecimal digits, and the value
  of a slice read directly, without the general parser: two hexadecimal digits, or one
  hexadecimal digit after a sign or next to white space.
\<close>

fun slices2 :: "nat list \<Rightarrow> (nat \<times> nat) list" where
  "slices2 (a # b # rest) = (a, b) # slices2 rest"
| "slices2 _ = []"

definition is_hex_digit :: "nat \<Rightarrow> bool" where
  "is_hex_digit c = (c \<in> set (code_points ''0123456789abcdefABCDEF''))"

definition two_hex_slices :: "nat list \<Rightarrow> (nat \<times> nat) list" where
  "two_hex_slices hex_str = filter (\<lambda>(a, b). is_hex_digit a \<and> is_hex_digit b) (slices2 hex_str)"

definition ascii_slice_value :: "nat \<Rightarrow> nat \<Rightarrow> int option" where
  "ascii_slice_value x y =
     (case (hex_val x, hex_val y) of
        (Some u, Some v) \<Rightarrow> Some (16 * u + v)
      | (None, Some v) \<Rightarrow>
          if py_isspace x \<or> x = ord CHR ''+'' then Some v
          else if x = ord CHR ''-'' then Some (- v) else None
      | (Some u, None) \<Rightarrow> if py_isspace y then Some u else None
      | (None, None) \<Rightarrow> None)"

definition slice_value :: "unicode_db \<Rightarrow> nat \<times> nat \<Rightarrow> int option" where
  "slice_value U p =
     (case (to_ascii U (fst p), to_ascii U (snd p)) of
        (Some x, Some y) \<Rightarrow> ascii_slice_value x y
      | _ \<Rightarrow> None)"

section \<open>StatisticsEngine and FingerprintSynthesizer\<close>

text \<open>
  \<open>np.mean(np.array(samples), axis=0)\<close>. An empty list gives an empty one-dimensional
  array, whose mean along axis 0 is the scalar \<open>nan\<close>; samples of different lengths make
  \<open>np.array\<close> raise \<open>ValueError\<close>; otherwise the result holds, for each column, the sum
  of the column divided by the number of samples. The sums are integers, which doubles
  hold exactly, so the double that numpy stores is the correctly rounded quotient; the
  model returns the exact quotients, and \<open>create_xor_mask\<close>, which computes with them,
  rounds them.
\<close>

datatype mean_axis0 = ScalarNaN | MeanVector "rat list"

definition column_sum :: "uint8 list list \<Rightarrow> nat \<Rightarrow> nat" where
  "column_sum samples i = sum_list (map (\<lambda>s. unat (s ! i)) samples)"

definition np_mean_axis0 :: "uint8 list list \<Rightarrow> py_error + mean_axis0" where
  "np_mean_axis0 samples =
     (if samples = [] then Inr ScalarNaN
      else if \<not> list_all (\<lambda>s. length s = length (hd samples)) samples then Inl ValueError
      else Inr (MeanVector
             (map (\<lambda>i. of_nat (column_sum samples i) / of_nat (length samples))
                  [0..<length (hd samples)])))"

text \<open>
  \<open>compute_fingerprint\<close>: \<open>(per_bit_mean >= 0.5).astype(np.uint8)\<close>. On the scalar
  \<open>nan\<close> of an empty cohort the comparison is false and the result is the scalar 0.
\<close>

datatype 'a ndarray = Scalar 'a | Vector "'a list"

definition majority_value :: "rat list \<Rightarrow> uint8 list" where
  "majority_value per_bit_mean = map (\<lambda>m. if m \<ge> 1 / 2 then 1 else 0) per_bit_mean"

definition compute_fingerprint :: "uint8 list list \<Rightarrow> py_error + uint8 ndarray" where
  "compute_fingerprint samples =
     (case np_mean_axis0 samples of
        Inl e \<Rightarrow> Inl e
      | Inr ScalarNaN \<Rightarrow> Inr (Scalar 0)
      | Inr (MeanVector per_bit_mean) \<Rightarrow> Inr (Vector (majority_value per_bit_mean)))"

text \<open>
  \<open>np.packbits\<close> as \<open>fingerprint_hash\<close> applies it: eight elements per byte, the first
  one in the most significant bit, a non-zero element counting as 1, the last byte
  padded with zero bits.
\<close>

definition pack_byte :: "uint8 list \<Rightarrow> uint8" where
  "pack_byte bits =
     foldl (\<lambda>acc b. 2 * acc + (if b = 0 then 0 else 1)) 0 (bits @ replicate (8 - length bits) 0)"

fun packbits :: "uint8 list \<Rightarrow> uint8 list" where
  "packbits bits = (if bits = [] then [] else pack_byte (take 8 bits) # packbits (drop 8 bits))"

declare packbits.simps [simp del]

text \<open>
  A byte printed as \<open>fingerprint_to_hex\<close> prints it, \<open>f"{byte:02X} "\<close>: two upper-case
  hexadecimal digits and a space.
\<close>

definition hex_digit_char :: "nat \<Rightarrow> nat" where
  "hex_digit_char n = (if n < 10 then ord CHR ''0'' + n else ord CHR ''A'' + (n - 10))"

definition format_02X :: "uint8 \<Rightarrow> nat list" where
  "format_02X byte = [hex_digit_char (unat byte div 16), hex_digit_char (unat byte mod 16)]"

definition render_hex :: "uint8 list \<Rightarrow> nat list" where
  "render_hex bytes = concat (map (\<lambda>byte. format_02X byte @ [ord CHR '' '']) bytes)"

section \<open>Double precision\<close>

text \<open>
  Rounding a rational number to the nearest double, ties to the even significand. For
  \<open>x\<close> other than 0, \<open>binary_exponent x\<close> is the \<open>e\<close> with \<open>2^e \<le> |x| < 2^(e+1)\<close>, and a
  double in that range is a multiple of \<open>2^(e-52)\<close>. The exponent is not bounded: the
  numbers of the debias engine are rates between 0 and 1, their sums and differences,
  and no cohort that fits in memory brings them near the subnormal range or the overflow
  threshold.
\<close>

definition round_half_even :: "rat \<Rightarrow> int" where
  "round_half_even x =
     (let f = \<lfloor>x\<rfloor>; d = x - of_int f
      in if d < 1 / 2 then f else if 1 / 2 < d then f + 1 else if even f then f else f + 1)"

definition binary_exponent :: "rat \<Rightarrow> int" where
  "binary_exponent x =
     (let (p, q) = quotient_of \<bar>x\<bar>; e = bitlen p - bitlen q
      in if 2 powi e \<le> \<bar>x\<bar> then e else e - 1)"

definition fl64 :: "rat \<Rightarrow> rat" where
  "fl64 x =
     (if x = 0 then 0
      else let u = 2 powi (binary_exponent x - 52)
           in of_int (round_half_even (x / u)) * u)"

definition fadd :: "rat \<Rightarrow> rat \<Rightarrow> rat" where
  "fadd x y = fl64 (x + y)"

text \<open>
  \<open>np.mean\<close> of a one-dimensional array of doubles: \<open>np.add.reduce\<close> divided by the
  length. The reduction is numpy's pairwise summation: fewer than 8 elements are added
  from left to right; up to 128 elements are added into eight accumulators, eight at a
  time, the accumulators are combined as \<open>((r0+r1)+(r2+r3))+((r4+r5)+(r6+r7))\<close> and the
  remaining elements are added to the result; a longer array is split at half its
  length, rounded down to a multiple of 8, and the sums of the two parts are added.
\<close>

fun add_blocks :: "rat list \<Rightarrow> rat list \<Rightarrow> rat list" where
  "add_blocks r rest =
     (if length rest < 8 then r else add_blocks (map2 fadd r (take 8 rest)) (drop 8 rest))"

declare add_blocks.simps [simp del]

definition sum_block :: "rat list \<Rightarrow> rat" where
  "sum_block xs =
     (let n = length xs; m = n - n mod 8;
          r = add_blocks (take 8 xs) (take (m - 8) (drop 8 xs));
          res = fadd (fadd (fadd (r ! 0) (r ! 1)) (fadd (r ! 2) (r ! 3)))
                     (fadd (fadd (r ! 4) (r ! 5)) (fadd (r ! 6) (r ! 7)))
      in foldl fadd res (drop m xs))"

definition half8 :: "nat \<Rightarrow> nat" where
  "half8 n = n div 2 - (n div 2) mod 8"

function pairwise_sum :: "rat list \<Rightarrow> rat" where
  "pairwise_sum xs =
     (if length xs < 8 then foldl fadd 0 xs
      else if length xs \<le> 128 then sum_block xs
      else fadd (pairwise_sum (take (half8 (length xs)) xs))
                (pairwise_sum (drop (half8 (length xs)) xs)))"
  by pat_completeness auto

termination
  by (relation "measure length") (auto simp: half8_def)

declare pairwise_sum.simps [simp del]

definition np_mean_f64 :: "rat list \<Rightarrow> rat" where
  "np_mean_f64 xs = fl64 (pairwise_sum xs / of_nat (length xs))"

text \<open>
  For the error analysis: the unit roundoff of doubles, and \<open>rel_close k a b\<close>, which says
  that \<open>a\<close> approximates the non-negative number \<open>b\<close> with the relative error of at most
  \<open>k\<close> successive roundings.
\<close>

definition unit_roundoff :: rat where
  "unit_roundoff = 1 / 2 ^ 53"

definition rel_close :: "nat \<Rightarrow> rat \<Rightarrow> rat \<Rightarrow> bool" where
  "rel_close k a b = (0 \<le> b \<and> \<bar>a - b\<bar> \<le> ((1 + unit_roundoff) ^ k - 1) * b)"

section \<open>DistanceEngine\<close>

text \<open>
  A numpy float result: a number or \<open>nan\<close>. In the metric modules
  (\<open>puf_intra_HD\<close>, \<open>puf_inter_HD\<close>, both \<open>puf_xor_debias\<close> files) \<open>hamming_distance\<close>
  divides the numpy integer \<open>np.sum(...)\<close> by \<open>min_len\<close>; for \<open>min_len = 0\<close> this is
  0/0, which numpy evaluates to \<open>nan\<close> with a warning, without raising.
\<close>

datatype npfloat = Num rat | NaN

definition mismatches :: "uint8 list \<Rightarrow> uint8 list \<Rightarrow> nat" where
  "mismatches bits1 bits2 =
     (let min_len = min (length bits1) (length bits2)
      in length (filter (\<lambda>(x, y). x \<noteq> y) (zip (take min_len bits1) (take min_len bits2))))"

definition hamming_distance :: "uint8 list \<Rightarrow> uint8 list \<Rightarrow> npfloat" where
  "hamming_distance bits1 bits2 =
     (let min_len = min (length bits1) (length bits2)
      in if min_len = 0 then NaN
         else Num (of_nat (mismatches bits1 bits2) / of_nat min_len))"

text \<open>The variant of \<open>puf_unstable_bits\<close>, with its guard \<open>if min_len == 0: return 0\<close>.\<close>

definition hamming_distance_unstable :: "uint8 list \<Rightarrow> uint8 list \<Rightarrow> npfloat" where
  "hamming_distance_unstable bits1 bits2 =
     (let min_len = min (length bits1) (length bits2)
      in if min_len = 0 then Num 0
         else Num (of_nat (mismatches bits1 bits2) / of_nat min_len))"

text \<open>\<open>itertools.combinations(xs, 2)\<close>, in its order.\<close>

fun combinations2 :: "'a list \<Rightarrow> ('a \<times> 'a) list" where
  "combinations2 [] = []"
| "combinations2 (x # xs) = map (Pair x) xs @ combinations2 xs"

definition compute_intra_hd :: "uint8 list list \<Rightarrow> npfloat list" where
  "compute_intra_hd samples =
     map (\<lambda>(i, j). hamming_distance (samples ! i) (samples ! j))
         (combinations2 [0..<length samples])"

definition compute_inter_hd :: "uint8 list list \<Rightarrow> uint8 list list \<Rightarrow> npfloat list" where
  "compute_inter_hd samples1 samples2 =
     concat (map (\<lambda>s1. map (\<lambda>s2. hamming_distance s1 s2) samples2) samples1)"

section \<open>DebiasEngine\<close>

text \<open>
  \<open>np.bitwise_xor\<close> on one-dimensional arrays: element by element on equal lengths; an
  array of length 1 is broadcast over the other; any other pair of lengths raises
  \<open>ValueError\<close>.
\<close>

definition bitwise_xor :: "uint8 list \<Rightarrow> uint8 list \<Rightarrow> py_error + uint8 list" where
  "bitwise_xor a b =
     (if length a = length b then Inr (map2 (XOR) a b)
      else if length a = 1 then Inr (map (\<lambda>y. hd a XOR y) b)
      else if length b = 1 then Inr (map (\<lambda>x. x XOR hd b) a)
      else Inl ValueError)"

fun apply_xor_mask :: "uint8 list list \<Rightarrow> uint8 list \<Rightarrow> py_error + uint8 list list" where
  "apply_xor_mask [] xmask = Inr []"
| "apply_xor_mask (s # samples) xmask =
     (case bitwise_xor s (take (length s) xmask) of
        Inl e \<Rightarrow> Inl e
      | Inr d \<Rightarrow>
          (case apply_xor_mask samples xmask of
             Inl e \<Rightarrow> Inl e
           | Inr ds \<Rightarrow> Inr (d # ds)))"

text \<open>
  The generator of \<open>np.random\<close> is global state of the process. Its two operations used
  by the source are parameters of the model: \<open>rng_seed n\<close> is the state after
  \<open>np.random.seed(n)\<close>, and \<open>rng_choice g a k\<close> is what
  \<open>np.random.choice(a, size=k, replace=False)\<close> draws in state \<open>g\<close>, with the state after
  the draw. \<open>np_random_choice\<close> adds the checks numpy makes before it draws.
\<close>

record 'g np_random =
  rng_seed :: "nat \<Rightarrow> 'g"
  rng_choice :: "'g \<Rightarrow> nat list \<Rightarrow> nat \<Rightarrow> nat list \<times> 'g"

definition np_random_choice ::
  "'g np_random \<Rightarrow> 'g \<Rightarrow> nat list \<Rightarrow> int \<Rightarrow> (py_error + nat list) \<times> 'g" where
  "np_random_choice R g a k =
     (if k < 0 then (Inl ValueError, g)
      else if int (length a) < k then (Inl ValueError, g)
      else (let (xs, g') = rng_choice R g a (nat k) in (Inr xs, g')))"

text \<open>
  The contract of a draw without replacement from a population of distinct values:
  \<open>k\<close> distinct members of the population.
\<close>

definition draws_without_replacement :: "'g np_random \<Rightarrow> bool" where
  "draws_without_replacement R =
     (\<forall>g a k. distinct a \<and> k \<le> length a \<longrightarrow>
        (let xs = fst (rng_choice R g a k)
         in length xs = k \<and> distinct xs \<and> set xs \<subseteq> set a))"

text \<open>Python's \<open>int(x)\<close> on a finite float: truncation towards zero.\<close>

definition py_int_of_float :: "rat \<Rightarrow> int" where
  "py_int_of_float x = (if x \<ge> 0 then \<lfloor>x\<rfloor> else \<lceil>x\<rceil>)"

text \<open>\<open>mask[flip_indices] = 1\<close>; an index out of range raises \<open>IndexError\<close>.\<close>

definition set_ones :: "uint8 list \<Rightarrow> nat list \<Rightarrow> uint8 list" where
  "set_ones xmask flip_indices = foldl (\<lambda>m i. m[i := 1]) xmask flip_indices"

text \<open>\<open>np.where(mean_per_bit < 0.05)[0]\<close>; the literal \<open>0.05\<close> is the double nearest to 5/100.\<close>

definition stable_indices_of :: "rat list \<Rightarrow> nat list" where
  "stable_indices_of mean_per_bit =
     filter (\<lambda>i. mean_per_bit ! i < fl64 (5 / 100)) [0..<length mean_per_bit]"

text \<open>
  \<open>create_xor_mask\<close>, identical in both \<open>puf_xor_debias\<close> files. It takes the state of
  the global generator and returns the state it leaves. All its arithmetic is in
  doubles: \<open>mean_per_bit\<close> holds the rounded quotients, \<open>current_hw\<close> is their
  \<open>np.mean\<close>, and the subtraction from 0.5 and the product with the length are each
  rounded before \<open>int\<close> truncates. On the scalar \<open>nan\<close> of an empty
  cohort \<open>len(mean_per_bit)\<close> raises \<open>TypeError\<close>; on samples of length 0 the global mean
  is \<open>nan\<close> and \<open>int\<close> raises \<open>ValueError\<close>; a negative \<open>num_to_flip\<close> makes
  \<open>np.random.choice\<close> raise \<open>ValueError\<close>. The draw of numpy returns members of
  \<open>stable_indices\<close>, which are in range; for a parameter that does not, the assignment
  raises \<open>IndexError\<close>.
\<close>

definition create_xor_mask ::
  "'g np_random \<Rightarrow> uint8 list list \<Rightarrow> 'g \<Rightarrow> (py_error + uint8 list) \<times> 'g" where
  "create_xor_mask R samples g =
     (case np_mean_axis0 samples of
        Inl e \<Rightarrow> (Inl e, g)
      | Inr ScalarNaN \<Rightarrow> (Inl TypeError, g)
      | Inr (MeanVector quotients) \<Rightarrow>
          if length quotients = 0 then (Inl ValueError, g)
          else
            let mean_per_bit = map fl64 quotients;
                current_hw = np_mean_f64 mean_per_bit;
                target_flip_ratio = fl64 (1 / 2 - current_hw);
                xmask = replicate (length mean_per_bit) (0 :: uint8);
                stable_indices = stable_indices_of mean_per_bit;
                num_to_flip =
                  py_int_of_float (fl64 (target_flip_ratio * of_nat (length mean_per_bit)));
                num_to_flip = min num_to_flip (int (length stable_indices));
                g1 = rng_seed R 42
            in case np_random_choice R g1 stable_indices num_to_flip of
                 (Inl e, g2) \<Rightarrow> (Inl e, g2)
               | (Inr flip_indices, g2) \<Rightarrow>
                   if list_all (\<lambda>i. i < length xmask) flip_indices
                   then (Inr (set_ones xmask flip_indices), g2)
                   else (Inl IndexError, g2))"

text \<open>
  A small generator to run the model on: the state is a counter, and a draw takes the
  first \<open>k\<close> members of the population rotated by the counter.
\<close>

definition rotating_random :: "nat np_random" where
  "rotating_random =
     \<lparr> rng_seed = (\<lambda>n. n), rng_choice = (\<lambda>g a k. (take k (rotate g a), Suc g)) \<rparr>"

text \<open>The 1-rate of a position, the number of set bits, and bit sequences.\<close>

definition one_rate :: "uint8 list list \<Rightarrow> nat \<Rightarrow> rat" where
  "one_rate samples i =
     of_nat (length (filter (\<lambda>s. s ! i = 1) samples)) / of_nat (length samples)"

definition hamming_weight_count :: "uint8 list \<Rightarrow> nat" where
  "hamming_weight_count bits = length (filter (\<lambda>b. b = 1) bits)"

definition is_bits :: "uint8 list \<Rightarrow> bool" where
  "is_bits s = list_all (\<lambda>b. b = 0 \<or> b = 1) s"

text \<open>
  The positions eligible for flipping (1-rate below 0.05) and the global 1-rate of a
  cohort of samples of length \<open>L\<close>, as exact numbers.
\<close>

definition eligible :: "uint8 list list \<Rightarrow> nat \<Rightarrow> nat list" where
  "eligible samples L = filter (\<lambda>i. one_rate samples i < 5 / 100) [0..<L]"

definition global_rate :: "uint8 list list \<Rightarrow> nat \<Rightarrow> rat" where
  "global_rate samples L = sum_list (map (one_rate samples) [0..<L]) / of_nat L"

text \<open>
  The same quantities evaluated in double precision: the rounded 1-rate of a position,
  the positions whose rounded rate is below the double 0.05, the global 1-rate as the
  \<open>np.mean\<close> of the rounded rates, and the truncated product
  \<open>int((0.5 - globalRate) * L)\<close> with each operation rounded.
\<close>

definition rate_f64 :: "uint8 list list \<Rightarrow> nat \<Rightarrow> rat" where
  "rate_f64 samples i = fl64 (one_rate samples i)"

definition eligible_f64 :: "uint8 list list \<Rightarrow> nat \<Rightarrow> nat list" where
  "eligible_f64 samples L = filter (\<lambda>i. rate_f64 samples i < fl64 (5 / 100)) [0..<L]"

definition global_rate_f64 :: "uint8 list list \<Rightarrow> nat \<Rightarrow> rat" where
  "global_rate_f64 samples L = np_mean_f64 (map (rate_f64 samples) [0..<L])"

definition num_to_flip_f64 :: "uint8 list list \<Rightarrow> nat \<Rightarrow> int" where
  "num_to_flip_f64 samples L =
     py_int_of_float (fl64 (fl64 (1 / 2 - global_rate_f64 samples L) * of_nat L))"

section \<open>Properties of the decoder\<close>

lemma length_byte_bits: "length (byte_bits byte) = 8"
  by (simp add: byte_bits_def)

lemma length_concat_byte_bits: "length (concat (map byte_bits bs)) = 8 * length bs"
  by (induction bs) (simp_all add: length_byte_bits)

lemma to_ascii_ascii: "c < 127 \<Longrightarrow> to_ascii U c = Some c"
  by (simp add: to_ascii_def)

text \<open>
  Claim C4. Decoding the text \<open>AA BB\<close> yields the 16 bits 10101010 10111011, and decoding
  \<open>AA B\<close> yields the 8 bits 10101010: the trailing single character is dropped.
\<close>

theorem decode_scenarios:
  "load_sram_file U (code_points ''AA BB'') = [1,0,1,0,1,0,1,0, 1,0,1,1,1,0,1,1]
   \<and> load_sram_file U (code_points ''AA B'') = [1,0,1,0,1,0,1,0]"
  by (simp add: load_sram_file_def strip_separators_def py_int16_def py_long_from_string_def
      py_strip_def py_isspace_def hex_val_def byte_bits_def code_points_def to_ascii_def)

text \<open>
  \<open>int\<close> also accepts a two-character slice made of a sign or a white space character and
  one digit: the slice \<open>-A\<close> is the number -10, whose eight low bits are emitted, and a
  digit followed by a tab is the digit.
\<close>

lemma decode_signed_slice:
  "load_sram_file U (code_points ''-A'') = [1, 1, 1, 1, 0, 1, 1, 0]"
  by (simp add: load_sram_file_def strip_separators_def py_int16_def py_long_from_string_def
      py_strip_def py_isspace_def hex_val_def byte_bits_def code_points_def to_ascii_def)

lemma decode_digit_tab: "load_sram_file U [ord CHR ''A'', 9] = [0, 0, 0, 0, 1, 0, 1, 0]"
  by (simp add: load_sram_file_def strip_separators_def py_int16_def py_long_from_string_def
      py_strip_def py_isspace_def hex_val_def byte_bits_def to_ascii_def)

lemma hex_val_Some_code:
  "hex_val c = Some v \<Longrightarrow>
   (48 \<le> c \<and> c \<le> 57) \<or> (65 \<le> c \<and> c \<le> 70) \<or> (97 \<le> c \<and> c \<le> 102)"
  by (auto simp: hex_val_def split: if_splits)

lemma hex_digit_plain:
  assumes "hex_val c = Some v"
  shows "\<not> py_isspace c" "c \<noteq> 45" "c \<noteq> 43" "c \<noteq> 95" "c \<noteq> 120" "c \<noteq> 88"
    "c \<noteq> 32" "c \<noteq> 13" "c \<noteq> 10" "c \<noteq> 46" "c < 127"
  using hex_val_Some_code [OF assms] by (auto simp: py_isspace_def)

lemma hex_val_plain: "hex_val 45 = None" "hex_val 43 = None" "hex_val 95 = None"
  "hex_val 120 = None" "hex_val 88 = None" "py_isspace c \<Longrightarrow> hex_val c = None"
  "hex_val 48 = Some 0"
  by (auto simp: hex_val_def py_isspace_def)

text \<open>On a slice of two ASCII characters the general parser computes \<open>ascii_slice_value\<close>.\<close>

lemma py_long_from_string_pair: "py_long_from_string [x, y] = ascii_slice_value x y"
proof (cases "hex_val x")
  case None
  note hx = None
  have x0: "x \<noteq> 48" using hx by (auto simp: hex_val_def)
  show ?thesis
  proof (cases "hex_val y")
    case None
    have y0: "y \<noteq> 48" using None by (auto simp: hex_val_def)
    show ?thesis
      using hx None x0 y0
      by (auto simp add: py_long_from_string_def py_strip_def ascii_slice_value_def
          hex_val_plain)
  next
    case (Some v)
    show ?thesis
      using hx Some x0 hex_digit_plain [OF Some]
      by (auto simp add: py_long_from_string_def py_strip_def ascii_slice_value_def
          hex_val_plain)
  qed
next
  case (Some u)
  note hx = Some
  show ?thesis
  proof (cases "hex_val y")
    case None
    show ?thesis
      using hx None hex_digit_plain [OF hx]
      by (auto simp add: py_long_from_string_def py_strip_def ascii_slice_value_def
          hex_val_plain)
  next
    case (Some v)
    show ?thesis
      using hx Some hex_digit_plain [OF hx] hex_digit_plain [OF Some]
      by (simp add: py_long_from_string_def py_strip_def ascii_slice_value_def)
  qed
qed

lemma py_int16_pair: "py_int16 U [a, b] = slice_value U (a, b)"
  by (simp add: py_int16_def slice_value_def py_long_from_string_pair
      split: option.split)

lemma parse_pairs_slices: "parse_pairs U t = List.map_filter (slice_value U) (slices2 t)"
proof (induction t rule: slices2.induct)
  case (1 a b rest)
  then show ?case
    by (simp add: py_int16_pair map_filter_simps split: option.split)
qed (simp_all add: map_filter_simps)

lemma length_slices2: "length (slices2 t) = length t div 2"
  by (induction t rule: slices2.induct) simp_all

lemma length_map_filter: "length (List.map_filter f xs) = length (filter (\<lambda>x. f x \<noteq> None) xs)"
  by (simp add: map_filter_def)

lemma length_filter_mono:
  "(\<And>x. x \<in> set xs \<Longrightarrow> P x \<Longrightarrow> Q x) \<Longrightarrow> length (filter P xs) \<le> length (filter Q xs)"
  by (induction xs) auto

lemma is_hex_digit_hex_val: "is_hex_digit c \<Longrightarrow> c < 127 \<and> hex_val c \<noteq> None"
  by (auto simp: is_hex_digit_def code_points_def hex_val_def)

lemma two_hex_slice_accepted:
  assumes "is_hex_digit a" and "is_hex_digit b"
  shows "slice_value U (a, b) \<noteq> None"
  using is_hex_digit_hex_val [OF assms(1)] is_hex_digit_hex_val [OF assms(2)]
  by (auto simp: slice_value_def to_ascii_ascii ascii_slice_value_def)

text \<open>
  The decoder also reads code points outside ASCII: two Arabic-Indic digits three are
  the byte 0x33, and \<open>A\<close> before a no-break space is the digit 10; two fullwidth
  letters \<open>A\<close> are skipped.
\<close>

lemma to_ascii_examples:
  "to_ascii unicode14 1635 = Some 51" "to_ascii unicode14 160 = Some 32"
  "to_ascii unicode14 65313 = None"
  by (simp_all add: to_ascii_def unicode14_def whitespace_points_def decimal_zero_points_def)

lemma decode_unicode_slices:
  "load_sram_file unicode14 [1635, 1635, 65, 160, 65313, 65313]
     = [0,0,1,1,0,0,1,1, 0,0,0,0,1,0,1,0]"
  by (simp add: load_sram_file_def strip_separators_def py_int16_pair slice_value_def
      to_ascii_examples to_ascii_ascii ascii_slice_value_def hex_val_def
      py_isspace_def byte_bits_def)

text \<open>
  Claim C9 says that every emitted bit belongs to a fully parsed byte of two hexadecimal
  characters. The text \<open>-A\<close> has no slice of two hexadecimal characters, and the decoder
  emits eight bits for it.
\<close>

theorem decode_signed_slice_counterexample:
  "load_sram_file unicode14 (code_points ''-A'') = [1, 1, 1, 1, 0, 1, 1, 0]
   \<and> two_hex_slices (strip_separators (code_points ''-A'')) = []"
  by (simp add: load_sram_file_def strip_separators_def py_int16_def py_long_from_string_def
      py_strip_def py_isspace_def hex_val_def byte_bits_def code_points_def to_ascii_def
      two_hex_slices_def is_hex_digit_def)

text \<open>
  Claim C9, amended. For every input text and every Unicode database, the decoded bit
  sequence consists of the eight bits, most significant first, of each aligned
  two-character slice of the stripped text that \<open>int(., 16)\<close> accepts, in order: two
  hexadecimal digits, or one hexadecimal digit after a sign or next to white space
  (\<open>slice_value\<close>). Its length is eight times the number of accepted slices, hence a
  multiple of 8 and at most eight times half the length of the stripped text: a rejected
  slice and a trailing single character emit nothing. Every slice of two hexadecimal
  characters is accepted.
\<close>

theorem decode_whole_slices:
  "load_sram_file U content
     = concat (map byte_bits
         (List.map_filter (slice_value U) (slices2 (strip_separators content))))
   \<and> length (load_sram_file U content)
       = 8 * length (filter (\<lambda>p. slice_value U p \<noteq> None) (slices2 (strip_separators content)))
   \<and> length (load_sram_file U content) mod 8 = 0
   \<and> length (load_sram_file U content) \<le> 8 * (length (strip_separators content) div 2)
   \<and> 8 * length (two_hex_slices (strip_separators content)) \<le> length (load_sram_file U content)"
proof -
  define t where "t = strip_separators content"
  have 1: "load_sram_file U content
           = concat (map byte_bits (List.map_filter (slice_value U) (slices2 t)))"
    by (simp add: load_sram_file_def parse_pairs_slices t_def)
  have 2: "length (load_sram_file U content)
           = 8 * length (filter (\<lambda>p. slice_value U p \<noteq> None) (slices2 t))"
    unfolding 1 by (simp only: length_concat_byte_bits length_map_filter)
  have 3: "length (load_sram_file U content) mod 8 = 0"
    unfolding 2 by simp
  have "length (filter (\<lambda>p. slice_value U p \<noteq> None) (slices2 t)) \<le> length (slices2 t)"
    by (rule length_filter_le)
  then have 4: "length (load_sram_file U content) \<le> 8 * (length t div 2)"
    unfolding 2 by (simp add: length_slices2)
  have "length (two_hex_slices t)
        \<le> length (filter (\<lambda>p. slice_value U p \<noteq> None) (slices2 t))"
    unfolding two_hex_slices_def
  proof (rule length_filter_mono)
    fix p :: "nat \<times> nat"
    assume "case p of (a, b) \<Rightarrow> is_hex_digit a \<and> is_hex_digit b"
    then have "is_hex_digit (fst p)" "is_hex_digit (snd p)"
      by (simp_all add: case_prod_beta)
    then have "slice_value U (fst p, snd p) \<noteq> None"
      by (rule two_hex_slice_accepted)
    then show "slice_value U p \<noteq> None" by simp
  qed
  then have 5: "8 * length (two_hex_slices t) \<le> length (load_sram_file U content)"
    unfolding 2 by simp
  from 1 2 3 4 5 show ?thesis unfolding t_def by blast
qed

section \<open>Properties of the distance engine\<close>

lemma mismatches_commute: "mismatches a b = mismatches b a"
proof -
  have "length (filter (\<lambda>(x, y). x \<noteq> y) (zip xs ys))
        = length (filter (\<lambda>(x, y). x \<noteq> y) (zip ys xs))"
    for xs ys :: "uint8 list"
  proof (induction xs arbitrary: ys)
    case Nil
    then show ?case by simp
  next
    case (Cons x xs)
    then show ?case by (cases ys) auto
  qed
  then show ?thesis by (simp add: mismatches_def Let_def min.commute)
qed

text \<open>
  Claim C8. For equal-length non-empty bit sequences \<open>a\<close> and \<open>b\<close>, the distance from \<open>a\<close>
  to \<open>b\<close> is a number and equals the distance from \<open>b\<close> to \<open>a\<close>.
\<close>

theorem hamming_distance_symmetric:
  "length a = length b \<Longrightarrow> a \<noteq> [] \<Longrightarrow>
     \<exists>d. hamming_distance a b = Num d \<and> hamming_distance b a = Num d"
  by (cases a; cases b) (simp_all add: hamming_distance_def Let_def mismatches_commute)

theorem hamming_distance_symmetric_witness:
  "length [1, 0, 1 :: uint8] = length [1, 1, 0 :: uint8] \<and> [1, 0, 1 :: uint8] \<noteq> []
   \<and> hamming_distance [1, 0, 1] [1, 1, 0] = Num (2 / 3)
   \<and> hamming_distance [1, 1, 0] [1, 0, 1] = Num (2 / 3)"
  using hamming_distance_symmetric [of "[1, 0, 1]" "[1, 1, 0]"]
  by (simp add: hamming_distance_def mismatches_def)

text \<open>
  Claim C2 says that the distance of two zero-length sequences fails explicitly and is
  never 0. In \<open>puf_unstable_bits\<close> the guard returns 0 for them.
\<close>

theorem hamming_distance_empty_counterexample:
  "hamming_distance_unstable [] [] = Num 0"
  by (simp add: hamming_distance_unstable_def)

text \<open>
  Claim C2, amended. When one of the two sequences is empty (in particular when both
  are), the distance of \<open>puf_unstable_bits\<close> is 0 by its guard, and the distance of the
  other modules is \<open>nan\<close>, never a number; \<open>nan\<close> arises in no other case. Neither
  variant raises.
\<close>

theorem hamming_distance_degenerate:
  "(hamming_distance a b = NaN) = (a = [] \<or> b = [])
   \<and> (a = [] \<or> b = [] \<longrightarrow> hamming_distance_unstable a b = Num 0)"
  by (cases a; cases b)
    (simp_all add: hamming_distance_def hamming_distance_unstable_def Let_def)

theorem hamming_distance_degenerate_witness:
  "hamming_distance [] [] = NaN \<and> hamming_distance_unstable [] [1] = Num 0"
  using hamming_distance_degenerate [of "[]" "[]"] hamming_distance_degenerate [of "[]" "[1]"]
  by simp

lemma length_combinations2: "length (combinations2 xs) = length xs * (length xs - 1) div 2"
proof (induction xs)
  case Nil
  then show ?case by simp
next
  case (Cons x xs)
  have "2 * length xs + length xs * (length xs - 1) = Suc (length xs) * length xs"
    by (cases "length xs") simp_all
  then show ?case using Cons by (simp add: algebra_simps)
qed

lemma set_combinations2_subset: "set (combinations2 ys) \<subseteq> set ys \<times> set ys"
  by (induction ys) auto

lemma distinct_combinations2: "distinct xs \<Longrightarrow> distinct (combinations2 xs)"
proof (induction xs)
  case Nil
  then show ?case by simp
next
  case (Cons x xs)
  have "distinct (map (Pair x) xs)"
    using Cons.prems by (simp add: distinct_map inj_on_def)
  moreover have "distinct (combinations2 xs)"
    using Cons by simp
  moreover have "set (map (Pair x) xs) \<inter> set (combinations2 xs) = {}"
    using set_combinations2_subset [of xs] Cons.prems by auto
  ultimately show ?case by simp
qed

lemma set_combinations2_sorted:
  "sorted xs \<Longrightarrow> distinct xs \<Longrightarrow>
   set (combinations2 xs) = {(i, j). i \<in> set xs \<and> j \<in> set xs \<and> i < j}"
proof (induction xs)
  case Nil
  then show ?case by simp
next
  case (Cons x xs)
  then have IH: "set (combinations2 xs) = {(i, j). i \<in> set xs \<and> j \<in> set xs \<and> i < j}"
    by simp
  have lt: "\<forall>y\<in>set xs. x < y"
    using Cons.prems by (auto simp: order_less_le)
  show ?case
  proof (rule set_eqI)
    fix p :: "'a \<times> 'a"
    obtain i j where p: "p = (i, j)" by (cases p)
    show "p \<in> set (combinations2 (x # xs)) \<longleftrightarrow>
          p \<in> {(i, j). i \<in> set (x # xs) \<and> j \<in> set (x # xs) \<and> i < j}"
      using lt unfolding p by (auto simp: IH)
  qed
qed

lemma length_compute_inter_hd:
  "length (compute_inter_hd samples1 samples2) = length samples1 * length samples2"
  unfolding compute_inter_hd_def by (induction samples1) simp_all

lemma sorted_wrt_combinations2:
  "sorted_wrt (<) xs \<Longrightarrow>
   sorted_wrt (\<lambda>p q. fst p < fst q \<or> (fst p = fst q \<and> snd p < snd q))
     (combinations2 (xs :: nat list))"
proof (induction xs)
  case Nil
  then show ?case by simp
next
  case (Cons x xs)
  have tl: "sorted_wrt (<) xs" and lt: "\<forall>y\<in>set xs. x < y"
    using Cons.prems by simp_all
  have 1: "sorted_wrt (\<lambda>p q. fst p < fst q \<or> (fst p = fst q \<and> snd p < snd q))
             (map (Pair x) xs)"
    using tl by (simp add: sorted_wrt_map)
  have 2: "sorted_wrt (\<lambda>p q. fst p < fst q \<or> (fst p = fst q \<and> snd p < snd q))
             (combinations2 xs)"
    using Cons.IH tl by simp
  have 3: "\<forall>p\<in>set (map (Pair x) xs). \<forall>q\<in>set (combinations2 xs).
             fst p < fst q \<or> (fst p = fst q \<and> snd p < snd q)"
    using lt set_combinations2_subset [of xs] by auto
  from 1 2 3 show ?case by (simp add: sorted_wrt_append)
qed

lemma concat_map_nth:
  "i < length xs \<Longrightarrow> j < length ys \<Longrightarrow>
   concat (map (\<lambda>x. map (f x) ys) xs) ! (i * length ys + j) = f (xs ! i) (ys ! j)"
proof (induction xs arbitrary: i)
  case Nil
  then show ?case by simp
next
  case (Cons x xs)
  show ?case
  proof (cases i)
    case 0
    then show ?thesis using Cons.prems by (simp add: nth_append)
  next
    case (Suc i')
    then have "concat (map (\<lambda>x. map (f x) ys) xs) ! (i' * length ys + j) = f (xs ! i') (ys ! j)"
      using Cons by simp
    then show ?thesis using Suc by (simp add: nth_append)
  qed
qed

text \<open>
  Claim C6. On a cohort of size \<open>n\<close>, \<open>compute_intra_hd\<close> returns \<open>n (n - 1) / 2\<close> values:
  the distances of the pairs of members at indices \<open>i < j < n\<close>, each pair once, in
  lexicographic order of the pairs. On cohorts of sizes \<open>m\<close> and \<open>n\<close>, \<open>compute_inter_hd\<close>
  returns \<open>m n\<close> values: at position \<open>i n + j\<close> the distance of member \<open>i\<close> of the first
  cohort and member \<open>j\<close> of the second.
\<close>

theorem distance_counts:
  "length (compute_intra_hd samples) = length samples * (length samples - 1) div 2
   \<and> (\<exists>ps. distinct ps
          \<and> set ps = {(i, j). i < j \<and> j < length samples}
          \<and> sorted_wrt (\<lambda>p q. fst p < fst q \<or> (fst p = fst q \<and> snd p < snd q)) ps
          \<and> compute_intra_hd samples
              = map (\<lambda>(i, j). hamming_distance (samples ! i) (samples ! j)) ps)
   \<and> length (compute_inter_hd samples1 samples2) = length samples1 * length samples2
   \<and> (\<forall>i<length samples1. \<forall>j<length samples2.
         compute_inter_hd samples1 samples2 ! (i * length samples2 + j)
           = hamming_distance (samples1 ! i) (samples2 ! j))"
proof -
  define ps where "ps = combinations2 [0..<length samples]"
  have 1: "length (compute_intra_hd samples) = length samples * (length samples - 1) div 2"
    by (simp add: compute_intra_hd_def length_combinations2)
  have 2: "distinct ps"
    unfolding ps_def by (rule distinct_combinations2) simp
  have "set ps = {(i, j). i \<in> set [0..<length samples] \<and> j \<in> set [0..<length samples] \<and> i < j}"
    unfolding ps_def by (rule set_combinations2_sorted) simp_all
  also have "\<dots> = {(i, j). i < j \<and> j < length samples}"
    by auto
  finally have 3: "set ps = {(i, j). i < j \<and> j < length samples}" .
  have 4: "sorted_wrt (\<lambda>p q. fst p < fst q \<or> (fst p = fst q \<and> snd p < snd q)) ps"
    unfolding ps_def by (rule sorted_wrt_combinations2) (simp add: sorted_wrt_upt)
  have 5: "compute_intra_hd samples
           = map (\<lambda>(i, j). hamming_distance (samples ! i) (samples ! j)) ps"
    by (simp add: compute_intra_hd_def ps_def)
  have 6: "\<forall>i<length samples1. \<forall>j<length samples2.
         compute_inter_hd samples1 samples2 ! (i * length samples2 + j)
           = hamming_distance (samples1 ! i) (samples2 ! j)"
    unfolding compute_inter_hd_def by (simp add: concat_map_nth)
  from 1 2 3 4 5 6 length_compute_inter_hd show ?thesis by blast
qed

lemma example_intra_hd:
  "compute_intra_hd [[0, 1], [1, 1], [0, 0]] = [Num (1 / 2), Num (1 / 2), Num 1]"
  by code_simp

lemma example_inter_hd:
  "compute_inter_hd [[0, 1], [1, 1]] [[0, 0], [1, 0], [0, 1]]
     = [Num (1 / 2), Num 1, Num 0, Num 1, Num (1 / 2), Num (1 / 2)]"
  by code_simp

lemma example_hamming_distance: "hamming_distance [1, 1] [0, 1] = Num (1 / 2)"
  by code_simp

theorem distance_counts_witness:
  "compute_intra_hd [[0, 1], [1, 1], [0, 0]] = [Num (1 / 2), Num (1 / 2), Num 1]
   \<and> length (compute_intra_hd [[0, 1], [1, 1], [0, 0]]) = 3 * (3 - 1) div 2
   \<and> length (compute_inter_hd [[0, 1], [1, 1]] [[0, 0], [1, 0], [0, 1]]) = 2 * 3
   \<and> (1 :: nat) < length [[0, 1], [1, 1 :: uint8]]
   \<and> (2 :: nat) < length [[0, 0], [1, 0], [0, 1 :: uint8]]
   \<and> compute_inter_hd [[0, 1], [1, 1]] [[0, 0], [1, 0], [0, 1]] ! (1 * 3 + 2)
        = hamming_distance ([[0, 1], [1, 1]] ! 1) ([[0, 0], [1, 0], [0, 1]] ! 2)"
  using distance_counts [of "[[0, 1], [1, 1], [0, 0]]" "[[0, 1], [1, 1]]"
      "[[0, 0], [1, 0], [0, 1]]"]
  by (simp add: example_intra_hd example_inter_hd example_hamming_distance)

section \<open>Properties of the debias engine\<close>

text \<open>
  Claim C7. The mask construction is deterministic: \<open>create_xor_mask\<close> seeds the global
  generator itself, so two runs on the same cohort give the same outcome (the same mask,
  or the same error), whatever state the generator is in when each run starts.
\<close>

theorem create_xor_mask_deterministic:
  "fst (create_xor_mask R samples g1) = fst (create_xor_mask R samples g2)"
  by (simp add: create_xor_mask_def np_random_choice_def Let_def
      split: sum.split mean_axis0.split prod.split)

lemma apply_xor_mask_map:
  "\<forall>s\<in>set samples. length s \<le> length xmask \<Longrightarrow>
   apply_xor_mask samples xmask
     = Inr (map (\<lambda>s. map2 (XOR) s (take (length s) xmask)) samples)"
  by (induction samples) (simp_all add: bitwise_xor_def)

lemma is_bits_nth: "is_bits s \<Longrightarrow> i < length s \<Longrightarrow> s ! i = 0 \<or> s ! i = 1"
  by (simp add: is_bits_def list_all_length)

text \<open>
  Claim C10. When every sample is a bit sequence no longer than the mask, applying the
  mask succeeds and returns, for each sample, a sequence of the same length in which
  position \<open>i\<close> is unchanged where the mask holds 0 and is flipped (\<open>1 - s[i]\<close>) where the
  mask holds 1.
\<close>

theorem apply_xor_mask_frame:
  assumes "\<forall>s\<in>set samples. length s \<le> length xmask \<and> is_bits s"
  shows "\<exists>out. apply_xor_mask samples xmask = Inr out \<and> length out = length samples \<and>
     (\<forall>k<length samples. length (out ! k) = length (samples ! k) \<and>
        (\<forall>i<length (samples ! k).
           (xmask ! i = 0 \<longrightarrow> out ! k ! i = samples ! k ! i) \<and>
           (xmask ! i = 1 \<longrightarrow> out ! k ! i = 1 - samples ! k ! i)))"
proof -
  define out where "out = map (\<lambda>s. map2 (XOR) s (take (length s) xmask)) samples"
  have eq: "apply_xor_mask samples xmask = Inr out"
    unfolding out_def using assms by (intro apply_xor_mask_map) simp
  have lout: "length out = length samples"
    by (simp add: out_def)
  have "length (out ! k) = length (samples ! k) \<and>
        (\<forall>i<length (samples ! k).
           (xmask ! i = 0 \<longrightarrow> out ! k ! i = samples ! k ! i) \<and>
           (xmask ! i = 1 \<longrightarrow> out ! k ! i = 1 - samples ! k ! i))"
    if k: "k < length samples" for k
  proof -
    let ?s = "samples ! k"
    have mem: "?s \<in> set samples" using k by simp
    then have len: "length ?s \<le> length xmask" and bits: "is_bits ?s"
      using assms by blast+
    have out: "out ! k = map2 (XOR) ?s (take (length ?s) xmask)"
      using k by (simp add: out_def)
    have "(xmask ! i = 0 \<longrightarrow> out ! k ! i = ?s ! i) \<and>
          (xmask ! i = 1 \<longrightarrow> out ! k ! i = 1 - ?s ! i)" if i: "i < length ?s" for i
    proof -
      have nth: "out ! k ! i = ?s ! i XOR xmask ! i"
        unfolding out using i len by simp
      from is_bits_nth [OF bits i] show ?thesis
        unfolding nth by auto
    qed
    moreover have "length (out ! k) = length ?s"
      unfolding out using len by simp
    ultimately show ?thesis by blast
  qed
  with eq lout show ?thesis by blast
qed

theorem apply_xor_mask_frame_witness:
  "list_all (\<lambda>s. length s \<le> length [0, 1, 1 :: uint8] \<and> is_bits s) [[1, 0, 1], [0, 0]]
   \<and> apply_xor_mask [[1, 0, 1], [0, 0]] [0, 1, 1] = Inr [[1, 1, 0], [0, 1]]"
  using apply_xor_mask_frame [of "[[1, 0, 1], [0, 0]]" "[0, 1, 1]"]
  by (simp add: is_bits_def bitwise_xor_def)

section \<open>Properties of the majority vote\<close>

lemma column_sum_count:
  "\<forall>s\<in>set samples. i < length s \<and> is_bits s \<Longrightarrow>
   column_sum samples i = length (filter (\<lambda>s. s ! i = 1) samples)"
proof (induction samples)
  case Nil
  then show ?case by (simp add: column_sum_def)
next
  case (Cons s samples)
  then have "s ! i = 0 \<or> s ! i = 1" by (simp add: is_bits_nth)
  moreover have "column_sum samples i = length (filter (\<lambda>s. s ! i = 1) samples)"
    using Cons by simp
  ultimately show ?case by (auto simp: column_sum_def)
qed

lemma np_mean_axis0_cohort:
  assumes "samples \<noteq> []" and "\<forall>s\<in>set samples. length s = L"
  shows "np_mean_axis0 samples
         = Inr (MeanVector (map (\<lambda>i. of_nat (column_sum samples i) / of_nat (length samples)) [0..<L]))"
proof -
  have "hd samples \<in> set samples" using assms(1) by simp
  then have "length (hd samples) = L" using assms(2) by blast
  moreover from this have "list_all (\<lambda>s. length s = length (hd samples)) samples"
    using assms(2) by (simp add: list_all_iff)
  ultimately show ?thesis using assms(1) by (simp add: np_mean_axis0_def)
qed

text \<open>
  Claim C3. For a non-empty cohort of bit sequences of equal length \<open>L\<close> and a position
  \<open>i < L\<close>, the fingerprint is a vector of length \<open>L\<close> whose bit \<open>i\<close> is 1 exactly when the
  fraction of members with a 1 at position \<open>i\<close> is at least 1/2, and 0 otherwise; on an
  exact tie the bit is 1.
\<close>

theorem majority_threshold:
  assumes "samples \<noteq> []" and "\<forall>s\<in>set samples. length s = L \<and> is_bits s" and "i < L"
  shows "\<exists>fp. compute_fingerprint samples = Inr (Vector fp) \<and> length fp = L
           \<and> (fp ! i = 1 \<longleftrightarrow> one_rate samples i \<ge> 1 / 2)
           \<and> (fp ! i = 0 \<longleftrightarrow> one_rate samples i < 1 / 2)
           \<and> (one_rate samples i = 1 / 2 \<longrightarrow> fp ! i = 1)"
proof -
  define ms where
    "ms = map (\<lambda>i. (of_nat (column_sum samples i) :: rat) / of_nat (length samples)) [0..<L]"
  have mean: "np_mean_axis0 samples = Inr (MeanVector ms)"
    unfolding ms_def using assms(1,2) by (intro np_mean_axis0_cohort) simp_all
  have fp: "compute_fingerprint samples = Inr (Vector (majority_value ms))"
    by (simp add: compute_fingerprint_def mean)
  have len: "length (majority_value ms) = L"
    by (simp add: majority_value_def ms_def)
  have "column_sum samples i = length (filter (\<lambda>s. s ! i = 1) samples)"
    using assms(2,3) by (intro column_sum_count) simp
  then have rate: "ms ! i = one_rate samples i"
    using assms(3) by (simp add: ms_def one_rate_def)
  have nth: "majority_value ms ! i = (if one_rate samples i \<ge> 1 / 2 then 1 else 0)"
    using assms(3) rate by (simp add: majority_value_def ms_def)
  have "(majority_value ms ! i = 1 \<longleftrightarrow> one_rate samples i \<ge> 1 / 2)
      \<and> (majority_value ms ! i = 0 \<longleftrightarrow> one_rate samples i < 1 / 2)
      \<and> (one_rate samples i = 1 / 2 \<longrightarrow> majority_value ms ! i = 1)"
    unfolding nth by auto
  with fp len show ?thesis by blast
qed

theorem majority_threshold_witness:
  "[[1, 0], [0, 0 :: uint8]] \<noteq> []
   \<and> list_all (\<lambda>s. length s = 2 \<and> is_bits s) [[1, 0], [0, 0 :: uint8]]
   \<and> (0 :: nat) < 2
   \<and> one_rate [[1, 0], [0, 0]] 0 = 1 / 2
   \<and> compute_fingerprint [[1, 0], [0, 0]] = Inr (Vector [1, 0])"
  using majority_threshold [of "[[1, 0], [0, 0]]" 2 0]
  by (simp add: is_bits_def one_rate_def compute_fingerprint_def np_mean_axis0_def
      majority_value_def column_sum_def)

section \<open>Round trip through hexadecimal text\<close>

lemma bit_of_shift:
  "(word_of_int (drop_bit i (uint (b :: uint8)) AND 1) :: uint8) = of_bool (bit b i)"
proof -
  have "drop_bit i (uint b) AND 1 = of_bool (bit (uint b) i)"
    by (simp add: and_one_eq mod_2_eq_odd bit_iff_odd_drop_bit)
  then show ?thesis by (auto simp add: bit_uint_iff dest: bit_imp_le_length)
qed

lemma foldl_horner:
  "foldl (\<lambda>acc x. 2 * acc + f x) a xs
   = a * 2 ^ length xs + horner_sum f (2 :: uint8) (rev xs)"
proof (induction xs arbitrary: a)
  case Nil
  then show ?case by simp
next
  case (Cons x xs)
  show ?case
    unfolding foldl_Cons Cons.IH
    by (simp add: horner_sum_append algebra_simps)
qed

lemma rev_upt_8: "[7, 6, 5, 4, 3, 2, 1, 0] = rev [0..<8 :: nat]"
  by code_simp

lemma pack_byte_byte_bits: "pack_byte (byte_bits (uint (b :: uint8))) = b"
proof -
  have "pack_byte (byte_bits (uint b))
        = foldl (\<lambda>acc i. 2 * acc + of_bool (bit b i)) 0 (rev [0..<8])"
    unfolding pack_byte_def byte_bits_def rev_upt_8 [symmetric]
    by (simp add: bit_of_shift)
  also have "\<dots> = horner_sum (\<lambda>i. of_bool (bit b i)) 2 [0..<8]"
    by (simp add: foldl_horner)
  also have "\<dots> = horner_sum of_bool 2 (map (bit b) [0..<8])"
    by (simp add: horner_sum_eq_sum)
  also have "\<dots> = take_bit 8 b"
    by (rule horner_sum_bit_eq_take_bit)
  also have "\<dots> = b"
    by (simp add: take_bit_word_eq_self)
  finally show ?thesis .
qed

lemma hex_val_hex_digit_char: "n < 16 \<Longrightarrow> hex_val (hex_digit_char n) = Some (int n)"
  by (auto simp: hex_val_def hex_digit_char_def)

lemma py_int16_hex_pair:
  assumes "hex_val a = Some va" and "hex_val b = Some vb"
  shows "py_int16 U [a, b] = Some (16 * va + vb)"
  using assms hex_digit_plain(11) [OF assms(1)] hex_digit_plain(11) [OF assms(2)]
  by (simp add: py_int16_pair slice_value_def to_ascii_ascii ascii_slice_value_def)

lemma py_int16_format_02X: "py_int16 U (format_02X byte) = Some (uint byte)"
proof -
  have lt: "unat byte div 16 < 16" "unat byte mod 16 < 16"
    using unsigned_less [of byte, where 'a = nat] by simp_all
  have "py_int16 U (format_02X byte) = Some (16 * int (unat byte div 16) + int (unat byte mod 16))"
    unfolding format_02X_def
    by (rule py_int16_hex_pair) (simp_all add: hex_val_hex_digit_char lt)
  also have "16 * int (unat byte div 16) + int (unat byte mod 16) = int (unat byte)"
    by (simp add: zdiv_int zmod_int)
  finally show ?thesis by simp
qed

lemma strip_separators_render_hex:
  "strip_separators (render_hex bytes) = concat (map format_02X bytes)"
proof (induction bytes)
  case Nil
  then show ?case by (simp add: render_hex_def strip_separators_def)
next
  case (Cons byte bytes)
  have lt: "unat byte div 16 < 16" "unat byte mod 16 < 16"
    using unsigned_less [of byte, where 'a = nat] by simp_all
  have keep: "strip_separators (format_02X byte @ [ord CHR '' ''] @ rest)
              = format_02X byte @ strip_separators rest"
    for rest
    using hex_digit_plain(7-10) [OF hex_val_hex_digit_char [OF lt(1)]]
      hex_digit_plain(7-10) [OF hex_val_hex_digit_char [OF lt(2)]]
    by (simp add: strip_separators_def format_02X_def)
  show ?case
    using Cons keep [of "render_hex bytes"] by (simp add: render_hex_def)
qed

lemma parse_pairs_format_02X:
  "parse_pairs U (concat (map format_02X bytes)) = map uint bytes"
proof (induction bytes)
  case Nil
  then show ?case by simp
next
  case (Cons byte bytes)
  have "parse_pairs U (format_02X byte @ rest)
        = uint byte # parse_pairs U rest" for rest
    using py_int16_format_02X [of U byte] by (simp add: format_02X_def)
  then show ?case using Cons by simp
qed

lemma packbits_byte_bits:
  "packbits (concat (map byte_bits (map uint bytes))) = bytes"
proof (induction bytes)
  case Nil
  then show ?case by (simp add: packbits.simps)
next
  case (Cons byte bytes)
  have ne: "byte_bits (uint byte) \<noteq> []"
    using length_byte_bits [of "uint byte"] by auto
  have "packbits (byte_bits (uint byte) @ rest) = byte # packbits rest" for rest
    by (subst packbits.simps) (simp add: ne length_byte_bits pack_byte_byte_bits)
  then show ?case using Cons by simp
qed

lemma packbits_pads: "packbits [1, 0, 1] = [160]"
  by (simp add: packbits.simps pack_byte_def eval_nat_numeral)

text \<open>
  Claim C5. For every byte array, rendering it as hexadecimal text, decoding the text and
  packing the decoded bits gives the original bytes back. The decoded sequence has eight
  bits for each byte, so the zero padding of \<open>packbits\<close>, which applies to lengths that
  are not a multiple of 8, adds nothing here.
\<close>

theorem hex_roundtrip:
  "packbits (load_sram_file U (render_hex bytes)) = bytes
   \<and> length (load_sram_file U (render_hex bytes)) = 8 * length bytes"
proof -
  have "load_sram_file U (render_hex bytes) = concat (map byte_bits (map uint bytes))"
    unfolding load_sram_file_def strip_separators_render_hex parse_pairs_format_02X ..
  then show ?thesis
    by (simp only: packbits_byte_bits length_concat_byte_bits length_map)
qed

section \<open>Properties of rounding to double precision\<close>

lemma round_half_even_nonneg: "0 \<le> x \<Longrightarrow> 0 \<le> round_half_even x"
  by (simp add: round_half_even_def Let_def)

lemma fl64_nonneg: "0 \<le> x \<Longrightarrow> 0 \<le> fl64 x"
  by (simp add: fl64_def Let_def round_half_even_nonneg)

lemma binary_exponent_bounds:
  assumes "x \<noteq> 0"
  shows "2 powi (binary_exponent x) \<le> \<bar>x\<bar> \<and> \<bar>x\<bar> < 2 powi (binary_exponent x + 1)"
proof -
  obtain p q where pq: "quotient_of \<bar>x\<bar> = (p, q)"
    by (cases "quotient_of \<bar>x\<bar>")
  have q: "0 < q" using pq by (rule quotient_of_denom_pos)
  have x: "\<bar>x\<bar> = of_int p / of_int q" using pq by (rule quotient_of_div)
  have "0 < \<bar>x\<bar>" using assms by simp
  then have p: "0 < p" using q x by (simp add: zero_less_divide_iff)
  define e where "e = bitlen p - bitlen q"
  have bp: "1 \<le> bitlen p" and bq: "1 \<le> bitlen q"
    using p q by (auto simp: bitlen_alt_def)
  have P: "(2 :: rat) powi (bitlen p - 1) \<le> of_int p" "(of_int p :: rat) < 2 powi bitlen p"
  proof -
    have "(2 :: int) ^ nat (bitlen p - 1) \<le> p" "p < 2 ^ nat (bitlen p)"
      using bitlen_bounds [OF p] by simp_all
    then have "(of_int (2 ^ nat (bitlen p - 1)) :: rat) \<le> of_int p"
       "(of_int p :: rat) < of_int (2 ^ nat (bitlen p))"
      by (simp_all only: of_int_le_iff of_int_less_iff)
    then show "(2 :: rat) powi (bitlen p - 1) \<le> of_int p" "(of_int p :: rat) < 2 powi bitlen p"
      using bp by (simp_all add: power_int_def)
  qed
  have Q: "(2 :: rat) powi (bitlen q - 1) \<le> of_int q" "(of_int q :: rat) < 2 powi bitlen q"
  proof -
    have "(2 :: int) ^ nat (bitlen q - 1) \<le> q" "q < 2 ^ nat (bitlen q)"
      using bitlen_bounds [OF q] by simp_all
    then have "(of_int (2 ^ nat (bitlen q - 1)) :: rat) \<le> of_int q"
       "(of_int q :: rat) < of_int (2 ^ nat (bitlen q))"
      by (simp_all only: of_int_le_iff of_int_less_iff)
    then show "(2 :: rat) powi (bitlen q - 1) \<le> of_int q" "(of_int q :: rat) < 2 powi bitlen q"
      using bq by (simp_all add: power_int_def)
  qed
  have qpos: "(0 :: rat) < of_int q" using q by simp
  have up: "\<bar>x\<bar> < 2 powi (e + 1)"
  proof -
    have "of_int p / of_int q < (2 :: rat) powi bitlen p / 2 powi (bitlen q - 1)"
      using P(2) Q(1) qpos p by (intro frac_less) simp_all
    also have "\<dots> = 2 powi (bitlen p - (bitlen q - 1))"
      by (subst power_int_diff) simp_all
    also have "bitlen p - (bitlen q - 1) = e + 1"
      by (simp add: e_def)
    finally show ?thesis by (simp add: x)
  qed
  have lo: "2 powi (e - 1) \<le> \<bar>x\<bar>"
  proof -
    have "(2 :: rat) powi (bitlen p - 1) / 2 powi bitlen q \<le> of_int p / of_int q"
      using P(1) Q(2) qpos p by (intro frac_le) simp_all
    moreover have "(2 :: rat) powi (bitlen p - 1) / 2 powi bitlen q = 2 powi (bitlen p - 1 - bitlen q)"
      by (subst power_int_diff) simp_all
    moreover have "bitlen p - 1 - bitlen q = e - 1"
      by (simp add: e_def)
    ultimately show ?thesis by (simp add: x)
  qed
  show ?thesis
  proof (cases "2 powi e \<le> \<bar>x\<bar>")
    case True
    then have "binary_exponent x = e"
      by (simp add: binary_exponent_def pq e_def)
    with True up show ?thesis by simp
  next
    case False
    then have "binary_exponent x = e - 1"
      by (simp add: binary_exponent_def pq e_def)
    with False lo show ?thesis by simp
  qed
qed

lemma round_half_even_bounds: "\<lfloor>x\<rfloor> \<le> round_half_even x \<and> round_half_even x \<le> \<lfloor>x\<rfloor> + 1"
  by (simp add: round_half_even_def Let_def)

lemma round_half_even_of_int: "round_half_even (of_int n) = n"
  by (simp add: round_half_even_def Let_def)

lemma round_half_even_mono:
  assumes "x \<le> y"
  shows "round_half_even x \<le> round_half_even y"
proof (cases "\<lfloor>x\<rfloor> = \<lfloor>y\<rfloor>")
  case True
  have "x - of_int \<lfloor>x\<rfloor> \<le> y - of_int \<lfloor>y\<rfloor>"
    using assms True by simp
  then show ?thesis
    using True by (auto simp: round_half_even_def Let_def)
next
  case False
  have "\<lfloor>x\<rfloor> \<le> \<lfloor>y\<rfloor>"
    using assms by (rule floor_mono)
  with False have "\<lfloor>x\<rfloor> + 1 \<le> \<lfloor>y\<rfloor>" by simp
  then show ?thesis
    using round_half_even_bounds [of x] round_half_even_bounds [of y] by linarith
qed

lemma fl64_pos_bounds:
  assumes "0 < x"
  shows "2 powi (binary_exponent x) \<le> fl64 x \<and> fl64 x \<le> 2 powi (binary_exponent x + 1)"
proof -
  define e where "e = binary_exponent x"
  define u :: rat where "u = 2 powi (e - 52)"
  have upos: "0 < u" by (simp add: u_def)
  have b: "2 powi e \<le> x" "x < 2 powi (e + 1)"
    using binary_exponent_bounds [of x] assms by (simp_all add: e_def)
  have lo_eq: "(2 :: rat) powi e = of_int (2 ^ 52) * u"
  proof -
    have "(2 :: rat) powi e = 2 powi (52 + (e - 52))"
      by (rule arg_cong [where f = "power_int 2"]) simp
    also have "\<dots> = 2 powi 52 * 2 powi (e - 52)"
      by (subst power_int_add) simp_all
    finally show ?thesis by (simp add: u_def)
  qed
  have hi_eq: "(2 :: rat) powi (e + 1) = of_int (2 ^ 53) * u"
  proof -
    have "(2 :: rat) powi (e + 1) = 2 powi (53 + (e - 52))"
      by (rule arg_cong [where f = "power_int 2"]) simp
    also have "\<dots> = 2 powi 53 * 2 powi (e - 52)"
      by (subst power_int_add) simp_all
    finally show ?thesis by (simp add: u_def)
  qed
  have "of_int (2 ^ 52) \<le> x / u"
    using b(1) upos unfolding lo_eq by (simp add: pos_le_divide_eq)
  then have "round_half_even (of_int (2 ^ 52)) \<le> round_half_even (x / u)"
    by (rule round_half_even_mono)
  then have lo: "2 ^ 52 \<le> round_half_even (x / u)"
    by (simp only: round_half_even_of_int)
  have "x / u \<le> of_int (2 ^ 53)"
    using b(2) upos unfolding hi_eq by (simp add: pos_divide_le_eq)
  then have "round_half_even (x / u) \<le> round_half_even (of_int (2 ^ 53))"
    by (rule round_half_even_mono)
  then have hi: "round_half_even (x / u) \<le> 2 ^ 53"
    by (simp only: round_half_even_of_int)
  have fl: "fl64 x = of_int (round_half_even (x / u)) * u"
    using assms by (simp add: fl64_def Let_def u_def e_def)
  have "of_int (2 ^ 52) * u \<le> of_int (round_half_even (x / u)) * u"
    using lo upos by (intro mult_right_mono) (simp_all only: of_int_le_iff less_imp_le)
  moreover have "of_int (round_half_even (x / u)) * u \<le> of_int (2 ^ 53) * u"
    using hi upos by (intro mult_right_mono) (simp_all only: of_int_le_iff less_imp_le)
  ultimately show ?thesis
    unfolding fl e_def [symmetric] lo_eq hi_eq by simp
qed

lemma fl64_mono:
  assumes "0 \<le> x" and "x \<le> y"
  shows "fl64 x \<le> fl64 y"
proof (cases "x = 0")
  case True
  then show ?thesis using assms fl64_nonneg [of y] by (simp add: fl64_def)
next
  case False
  then have x: "0 < x" and y: "0 < y" using assms by simp_all
  define ex where "ex = binary_exponent x"
  define ey where "ey = binary_exponent y"
  have bx: "2 powi ex \<le> x" and by': "y < 2 powi (ey + 1)"
    using binary_exponent_bounds [of x] binary_exponent_bounds [of y] x y
    by (simp_all add: ex_def ey_def)
  have "(2 :: rat) powi ex < 2 powi (ey + 1)"
    using bx by' assms(2) by linarith
  have le: "ex \<le> ey"
  proof (rule ccontr)
    assume "\<not> ex \<le> ey"
    then have "ey + 1 \<le> ex" by simp
    then have "(2 :: rat) powi (ey + 1) \<le> 2 powi ex"
      by (rule power_int_increasing) simp
    with \<open>(2 :: rat) powi ex < 2 powi (ey + 1)\<close> show False by simp
  qed
  show ?thesis
  proof (cases "ex = ey")
    case True
    define u :: rat where "u = 2 powi (ex - 52)"
    have upos: "0 < u" by (simp add: u_def)
    have "x / u \<le> y / u"
      using assms(2) upos by (simp add: divide_right_mono)
    then have "round_half_even (x / u) \<le> round_half_even (y / u)"
      by (rule round_half_even_mono)
    then have "of_int (round_half_even (x / u)) * u \<le> of_int (round_half_even (y / u)) * u"
      using upos by (intro mult_right_mono) simp_all
    moreover have "fl64 x = of_int (round_half_even (x / u)) * u"
      using x by (simp add: fl64_def Let_def u_def ex_def)
    moreover have "fl64 y = of_int (round_half_even (y / u)) * u"
      using y True by (simp add: fl64_def Let_def u_def ex_def ey_def)
    ultimately show ?thesis by simp
  next
    case False
    with le have "ex + 1 \<le> ey" by simp
    then have "(2 :: rat) powi (ex + 1) \<le> 2 powi ey"
      by (rule power_int_increasing) simp
    moreover have "fl64 x \<le> 2 powi (ex + 1)"
      using fl64_pos_bounds [OF x] by (simp add: ex_def)
    moreover have "2 powi ey \<le> fl64 y"
      using fl64_pos_bounds [OF y] by (simp add: ey_def)
    ultimately show ?thesis by linarith
  qed
qed

text \<open>
  The error of one rounding, and of numpy's summation: the computed sum of \<open>n\<close>
  non-negative doubles is within \<open>n\<close> roundings of their exact sum.
\<close>

lemma round_half_even_error: "\<bar>of_int (round_half_even y) - y\<bar> \<le> 1 / 2"
proof -
  define f where "f = \<lfloor>y\<rfloor>"
  define d where "d = y - of_int f"
  have d: "0 \<le> d" "d < 1" unfolding d_def f_def by linarith+
  have y: "y = of_int f + d" by (simp add: d_def)
  have r: "round_half_even y
           = (if d < 1 / 2 then f else if 1 / 2 < d then f + 1 else if even f then f else f + 1)"
    by (simp add: round_half_even_def Let_def f_def d_def)
  show ?thesis
  proof (cases "d < 1 / 2")
    case True
    then have "round_half_even y = f" using r by simp
    then have "of_int (round_half_even y) - y = - d" by (simp add: d_def)
    then show ?thesis using d True by simp
  next
    case False
    note nlt = False
    show ?thesis
    proof (cases "1 / 2 < d")
      case True
      then have "round_half_even y = f + 1" using r nlt by simp
      then have "of_int (round_half_even y) - y = 1 - d" by (simp add: d_def)
      then show ?thesis using d True by simp
    next
      case False
      with nlt have half: "d = 1 / 2" by simp
      then have "round_half_even y = f \<or> round_half_even y = f + 1" using r by simp
      then have "of_int (round_half_even y) - y = - d \<or> of_int (round_half_even y) - y = 1 - d"
        by (auto simp: d_def)
      then show ?thesis using half by auto
    qed
  qed
qed

lemma fl64_error: "\<bar>fl64 x - x\<bar> \<le> unit_roundoff * \<bar>x\<bar>"
proof (cases "x = 0")
  case True
  then show ?thesis by (simp add: fl64_def)
next
  case False
  define e where "e = binary_exponent x"
  define U :: rat where "U = 2 powi (e - 52)"
  have Upos: "0 < U" by (simp add: U_def)
  have lo: "2 powi e \<le> \<bar>x\<bar>"
    using binary_exponent_bounds [OF False] by (simp add: e_def)
  have "(2 :: rat) powi e = 2 powi (52 + (e - 52))"
    by (rule arg_cong [where f = "power_int 2"]) simp
  also have "\<dots> = 2 powi 52 * 2 powi (e - 52)"
    by (subst power_int_add) simp_all
  finally have eU: "(2 :: rat) powi e = 2 ^ 52 * U" by (simp add: U_def)
  have fl: "fl64 x = of_int (round_half_even (x / U)) * U"
    using False by (simp add: fl64_def Let_def U_def e_def)
  have "fl64 x - x = (of_int (round_half_even (x / U)) - x / U) * U"
    using Upos by (simp add: fl field_simps)
  then have "\<bar>fl64 x - x\<bar> = \<bar>of_int (round_half_even (x / U)) - x / U\<bar> * U"
    using Upos by (simp add: abs_mult)
  also have "\<dots> \<le> 1 / 2 * U"
    using round_half_even_error [of "x / U"] Upos by (intro mult_right_mono) simp_all
  also have "\<dots> = unit_roundoff * (2 ^ 52 * U)"
    by (simp add: unit_roundoff_def)
  also have "\<dots> \<le> unit_roundoff * \<bar>x\<bar>"
    using lo unfolding eU by (intro mult_left_mono) (simp_all add: unit_roundoff_def)
  finally show ?thesis .
qed

lemma unit_roundoff_pos: "0 < unit_roundoff"
  by (simp add: unit_roundoff_def)

lemma rel_close_refl: "0 \<le> x \<Longrightarrow> rel_close 0 x x"
  by (simp add: rel_close_def)

lemma rel_close_mono:
  assumes "rel_close k a b" and "k \<le> k'"
  shows "rel_close k' a b"
proof -
  have "(1 + unit_roundoff) ^ k \<le> (1 + unit_roundoff) ^ k'"
    using assms(2) unit_roundoff_pos by (intro power_increasing) simp_all
  then have "((1 + unit_roundoff) ^ k - 1) * b \<le> ((1 + unit_roundoff) ^ k' - 1) * b"
    using assms(1) by (intro mult_right_mono) (simp_all add: rel_close_def)
  then show ?thesis using assms(1) by (auto simp: rel_close_def)
qed

lemma rel_close_fl64:
  assumes "rel_close k a b"
  shows "rel_close (Suc k) (fl64 a) b"
proof -
  define E where "E = (1 + unit_roundoff) ^ k - 1"
  have b: "0 \<le> b" and ab: "\<bar>a - b\<bar> \<le> E * b"
    using assms by (simp_all add: rel_close_def E_def)
  have "\<bar>a\<bar> \<le> b + E * b" using ab b by linarith
  then have "unit_roundoff * \<bar>a\<bar> \<le> unit_roundoff * (b + E * b)"
    using unit_roundoff_pos by (intro mult_left_mono) simp_all
  then have "\<bar>fl64 a - a\<bar> \<le> unit_roundoff * (b + E * b)"
    using fl64_error [of a] by linarith
  then have "\<bar>fl64 a - b\<bar> \<le> unit_roundoff * (b + E * b) + E * b"
    using ab by linarith
  also have "\<dots> = ((1 + unit_roundoff) ^ Suc k - 1) * b"
    by (simp add: E_def algebra_simps)
  finally show ?thesis using b by (simp add: rel_close_def)
qed

lemma rel_close_add:
  assumes "rel_close k a b" and "rel_close k a' b'"
  shows "rel_close k (a + a') (b + b')"
proof -
  define E where "E = (1 + unit_roundoff) ^ k - 1"
  have "\<bar>a - b\<bar> \<le> E * b" "\<bar>a' - b'\<bar> \<le> E * b'" "0 \<le> b" "0 \<le> b'"
    using assms by (simp_all add: rel_close_def E_def)
  then have "\<bar>(a + a') - (b + b')\<bar> \<le> E * b + E * b'" "0 \<le> b + b'"
    by linarith+
  then show ?thesis by (simp add: rel_close_def E_def algebra_simps)
qed

lemma rel_close_fadd:
  assumes "rel_close k a b" and "rel_close k a' b'"
  shows "rel_close (Suc k) (fadd a a') (b + b')"
  unfolding fadd_def using assms by (intro rel_close_fl64 rel_close_add)

lemma rel_close_divide:
  assumes "rel_close k a b" and "0 < c"
  shows "rel_close k (a / c) (b / c)"
proof -
  have "\<bar>a / c - b / c\<bar> = \<bar>a - b\<bar> / c"
    using assms(2) by (simp add: diff_divide_distrib [symmetric] abs_divide)
  also have "\<dots> \<le> ((1 + unit_roundoff) ^ k - 1) * b / c"
    using assms by (intro divide_right_mono) (simp_all add: rel_close_def)
  finally show ?thesis using assms by (simp add: rel_close_def)
qed

lemma foldl_fadd_close:
  "rel_close k acc b \<Longrightarrow> \<forall>x\<in>set xs. 0 \<le> x \<Longrightarrow>
   rel_close (k + length xs) (foldl fadd acc xs) (b + sum_list xs)"
proof (induction xs arbitrary: acc b k)
  case Nil
  then show ?case by simp
next
  case (Cons x xs)
  have "rel_close k x x"
    using Cons.prems(2) by (intro rel_close_mono [OF rel_close_refl]) simp_all
  then have "rel_close (Suc k) (fadd acc x) (b + x)"
    using Cons.prems(1) by (intro rel_close_fadd)
  then have "rel_close (Suc k + length xs) (foldl fadd (fadd acc x) xs) (b + x + sum_list xs)"
    using Cons.prems(2) by (intro Cons.IH) simp_all
  then show ?case by (simp add: add.assoc)
qed

lemma sum_list_map2_add:
  "length xs = length ys \<Longrightarrow>
   sum_list (map2 (+) xs ys) = sum_list xs + sum_list (ys :: rat list)"
  by (induction xs ys rule: list_induct2) simp_all

lemma add_blocks_close:
  "list_all2 (rel_close k) r r' \<Longrightarrow> length r = 8 \<Longrightarrow> \<forall>x\<in>set rest. 0 \<le> x \<Longrightarrow>
   \<exists>r''. list_all2 (rel_close (k + length rest div 8)) (add_blocks r rest) r''
        \<and> sum_list r'' = sum_list r' + sum_list (take (8 * (length rest div 8)) rest)"
proof (induction r rest arbitrary: k r' rule: add_blocks.induct)
  case (1 r rest)
  show ?case
  proof (cases "length rest < 8")
    case True
    then show ?thesis
      using "1.prems"(1) by (subst add_blocks.simps) (auto intro: exI [of _ r'])
  next
    case False
    define blk where "blk = take 8 rest"
    have lblk: "length blk = 8" using False by (simp add: blk_def)
    have lr': "length r' = 8"
      using "1.prems"(1,2) by (simp add: list_all2_lengthD [symmetric])
    have blkpos: "\<forall>x\<in>set blk. 0 \<le> x"
      using "1.prems"(3) by (auto simp: blk_def dest: in_set_takeD)
    have step: "list_all2 (rel_close (Suc k)) (map2 fadd r blk) (map2 (+) r' blk)"
    proof (rule list_all2_all_nthI)
      show "length (map2 fadd r blk) = length (map2 (+) r' blk)"
        by (simp add: "1.prems"(2) lr' lblk)
    next
      fix n
      assume "n < length (map2 fadd r blk)"
      then have n: "n < 8" by (simp add: "1.prems"(2) lblk)
      have a: "rel_close k (r ! n) (r' ! n)"
        using "1.prems"(1,2) n by (simp add: list_all2_conv_all_nth)
      have "0 \<le> blk ! n" using blkpos n lblk by simp
      then have b: "rel_close k (blk ! n) (blk ! n)"
        by (intro rel_close_mono [OF rel_close_refl]) simp_all
      show "rel_close (Suc k) (map2 fadd r blk ! n) (map2 (+) r' blk ! n)"
        using n rel_close_fadd [OF a b] by (simp add: "1.prems"(2) lr' lblk)
    qed
    have "\<exists>r''. list_all2 (rel_close (Suc k + length (drop 8 rest) div 8))
                  (add_blocks (map2 fadd r blk) (drop 8 rest)) r''
        \<and> sum_list r'' = sum_list (map2 (+) r' blk)
                         + sum_list (take (8 * (length (drop 8 rest) div 8)) (drop 8 rest))"
      unfolding blk_def
    proof (rule "1.IH")
      show "\<not> length rest < 8" by (rule False)
      show "list_all2 (rel_close (Suc k)) (map2 fadd r (take 8 rest)) (map2 (+) r' (take 8 rest))"
        using step by (simp add: blk_def)
      show "length (map2 fadd r (take 8 rest)) = 8"
        using lblk by (simp add: "1.prems"(2) blk_def)
      show "\<forall>x\<in>set (drop 8 rest). 0 \<le> x"
        using "1.prems"(3) by (auto dest: in_set_dropD)
    qed
    then obtain r'' where r'':
      "list_all2 (rel_close (Suc k + length (drop 8 rest) div 8))
         (add_blocks (map2 fadd r blk) (drop 8 rest)) r''"
      "sum_list r'' = sum_list (map2 (+) r' blk)
                       + sum_list (take (8 * (length (drop 8 rest) div 8)) (drop 8 rest))"
      by blast
    have kk: "Suc k + length (drop 8 rest) div 8 = k + length rest div 8"
      using False by (simp add: le_div_geq)
    have ab: "add_blocks r rest = add_blocks (map2 fadd r blk) (drop 8 rest)"
      using False by (subst add_blocks.simps) (simp add: blk_def)
    have cnt: "8 * (length rest div 8) = 8 + 8 * (length (drop 8 rest) div 8)"
      using kk by simp
    have "take (8 * (length rest div 8)) rest
          = blk @ take (8 * (length (drop 8 rest) div 8)) (drop 8 rest)"
      unfolding cnt blk_def by (simp add: take_add)
    then have "sum_list (take (8 * (length rest div 8)) rest)
               = sum_list blk + sum_list (take (8 * (length (drop 8 rest) div 8)) (drop 8 rest))"
      by simp
    moreover have "sum_list (map2 (+) r' blk) = sum_list r' + sum_list blk"
      by (rule sum_list_map2_add) (simp add: lr' lblk)
    ultimately have "sum_list r'' = sum_list r' + sum_list (take (8 * (length rest div 8)) rest)"
      using r''(2) by simp
    with r''(1) show ?thesis unfolding ab kk by blast
  qed
qed

lemma length_add_blocks: "length r = 8 \<Longrightarrow> length (add_blocks r rest) = 8"
proof (induction r rest rule: add_blocks.induct)
  case (1 r rest)
  show ?case
  proof (cases "length rest < 8")
    case True
    then show ?thesis using "1.prems" by (subst add_blocks.simps) simp
  next
    case False
    then have "length (add_blocks (map2 fadd r (take 8 rest)) (drop 8 rest)) = 8"
      using "1.prems" by (intro "1.IH") simp_all
    then show ?thesis using False by (subst add_blocks.simps) simp
  qed
qed

lemma sum_list_take_drop:
  "sum_list (take k xs) + sum_list (drop k xs) = sum_list (xs :: rat list)"
  by (metis append_take_drop_id sum_list_append)

lemma list8: "length xs = 8 \<Longrightarrow> \<exists>a b c d e f g h. xs = [a, b, c, d, e, f, g, h]"
  by (auto simp: eval_nat_numeral length_Suc_conv)

lemma sum_block_close:
  assumes len: "8 \<le> length xs" and pos: "\<forall>x\<in>set xs. (0 :: rat) \<le> x"
  shows "rel_close (length xs) (sum_block xs) (sum_list xs)"
proof -
  define n where "n = length xs"
  define m where "m = n - n mod 8"
  define r0 where "r0 = take 8 xs"
  define rest where "rest = take (m - 8) (drop 8 xs)"
  define r where "r = add_blocks r0 rest"
  define kb where "kb = (m - 8) div 8"
  have n8: "8 \<le> n" using len by (simp add: n_def)
  have m8: "m = 8 * (n div 8)" unfolding m_def by (simp add: minus_mod_eq_mult_div)
  have mn: "m \<le> n" by (simp add: m_def)
  have m_ge: "8 \<le> m" using n8 unfolding m8 by (simp add: div_greater_zero_iff)
  have lr0: "length r0 = 8" using n8 by (simp add: r0_def n_def)
  have lrest: "length rest = m - 8" using mn by (simp add: rest_def n_def)
  have m88: "m - 8 = 8 * (n div 8 - 1)"
    unfolding m8 by (simp add: diff_mult_distrib2)
  have rest8: "8 * (length rest div 8) = length rest"
    unfolding lrest m88 by simp
  have r0pos: "\<forall>x\<in>set r0. 0 \<le> x" using pos by (auto simp: r0_def dest: in_set_takeD)
  have restpos: "\<forall>x\<in>set rest. 0 \<le> x"
    using pos by (auto simp: rest_def dest!: in_set_takeD in_set_dropD)
  have "list_all2 (rel_close 0) r0 r0"
    using r0pos by (simp add: list_all2_same rel_close_refl)
  from add_blocks_close [OF this lr0 restpos]
  obtain r'' where r'': "list_all2 (rel_close kb) r r''"
      "sum_list r'' = sum_list r0 + sum_list rest"
    unfolding rest8 by (auto simp: r_def kb_def lrest)
  have lr: "length r = 8" unfolding r_def using lr0 by (rule length_add_blocks)
  then have lr'': "length r'' = 8" using r''(1) by (simp add: list_all2_lengthD [symmetric])
  obtain a0 a1 a2 a3 a4 a5 a6 a7 where r: "r = [a0, a1, a2, a3, a4, a5, a6, a7]"
    using list8 [OF lr] by blast
  obtain b0 b1 b2 b3 b4 b5 b6 b7 where rb: "r'' = [b0, b1, b2, b3, b4, b5, b6, b7]"
    using list8 [OF lr''] by blast
  have c: "rel_close kb a0 b0" "rel_close kb a1 b1" "rel_close kb a2 b2" "rel_close kb a3 b3"
    "rel_close kb a4 b4" "rel_close kb a5 b5" "rel_close kb a6 b6" "rel_close kb a7 b7"
    using r''(1) unfolding r rb by simp_all
  define res where "res = fadd (fadd (fadd a0 a1) (fadd a2 a3)) (fadd (fadd a4 a5) (fadd a6 a7))"
  have "rel_close (Suc (Suc (Suc kb))) res (((b0 + b1) + (b2 + b3)) + ((b4 + b5) + (b6 + b7)))"
    unfolding res_def by (intro rel_close_fadd c)
  moreover have "((b0 + b1) + (b2 + b3)) + ((b4 + b5) + (b6 + b7)) = sum_list r''"
    by (simp add: rb)
  ultimately have res: "rel_close (kb + 3) res (sum_list r'')"
    by (simp add: eval_nat_numeral)
  have droppos: "\<forall>x\<in>set (drop m xs). 0 \<le> x"
    using pos by (auto dest: in_set_dropD)
  have fin: "rel_close (kb + 3 + length (drop m xs)) (foldl fadd res (drop m xs))
               (sum_list r'' + sum_list (drop m xs))"
    using res droppos by (rule foldl_fadd_close)
  have "take m xs = r0 @ rest"
  proof -
    have "m = 8 + (m - 8)" using m_ge by simp
    then have "take m xs = take (8 + (m - 8)) xs" by simp
    also have "\<dots> = take 8 xs @ take (m - 8) (drop 8 xs)" by (rule take_add)
    finally show ?thesis by (simp add: r0_def rest_def)
  qed
  then have "sum_list (take m xs) = sum_list r0 + sum_list rest" by simp
  then have total: "sum_list r'' + sum_list (drop m xs) = sum_list xs"
    using r''(2) sum_list_take_drop [of m xs] by simp
  have sb: "sum_block xs = foldl fadd res (drop m xs)"
    unfolding sum_block_def Let_def n_def [symmetric] m_def [symmetric] r0_def [symmetric]
      rest_def [symmetric] r_def [symmetric]
    by (simp add: r res_def)
  have "kb + 3 + length (drop m xs) \<le> n"
  proof -
    have "length (drop m xs) = n mod 8" using mn by (simp add: n_def m_def)
    moreover have "kb = n div 8 - 1" unfolding kb_def m88 by simp
    moreover have "1 \<le> n div 8" using n8 by (simp add: div_greater_zero_iff Suc_le_eq)
    moreover have "n = 8 * (n div 8) + n mod 8" by simp
    ultimately show ?thesis by linarith
  qed
  with fin show ?thesis
    unfolding sb total n_def by (rule rel_close_mono)
qed

lemma pairwise_sum_close:
  "\<forall>x\<in>set xs. 0 \<le> x \<Longrightarrow> rel_close (length xs) (pairwise_sum xs) (sum_list xs)"
proof (induction xs rule: pairwise_sum.induct)
  case (1 xs)
  show ?case
  proof (cases "length xs < 8")
    case True
    have "rel_close (0 + length xs) (foldl fadd 0 xs) (0 + sum_list xs)"
      using "1.prems" by (intro foldl_fadd_close rel_close_refl) simp_all
    then show ?thesis using True by (subst pairwise_sum.simps) simp
  next
    case False
    note ge8 = False
    show ?thesis
    proof (cases "length xs \<le> 128")
      case True
      have "rel_close (length xs) (sum_block xs) (sum_list xs)"
        using ge8 "1.prems" by (intro sum_block_close) simp_all
      then show ?thesis using ge8 True by (subst pairwise_sum.simps) simp
    next
      case False
      define h where "h = half8 (length xs)"
      have h: "0 < h" "h < length xs"
        using False unfolding h_def half8_def by (simp_all; linarith)+
      have a: "rel_close (length (take h xs)) (pairwise_sum (take h xs)) (sum_list (take h xs))"
        unfolding h_def using ge8 False "1.prems"
        by (intro "1.IH"(1)) (auto dest: in_set_takeD)
      have b: "rel_close (length (drop h xs)) (pairwise_sum (drop h xs)) (sum_list (drop h xs))"
        unfolding h_def using ge8 False "1.prems"
        by (intro "1.IH"(2)) (auto dest: in_set_dropD)
      have "rel_close (length xs - 1) (pairwise_sum (take h xs)) (sum_list (take h xs))"
        using h by (intro rel_close_mono [OF a]) simp
      moreover have "rel_close (length xs - 1) (pairwise_sum (drop h xs)) (sum_list (drop h xs))"
        using h by (intro rel_close_mono [OF b]) simp
      ultimately have "rel_close (Suc (length xs - 1))
           (fadd (pairwise_sum (take h xs)) (pairwise_sum (drop h xs)))
           (sum_list (take h xs) + sum_list (drop h xs))"
        by (rule rel_close_fadd)
      moreover note sum_list_take_drop [of h xs]
      moreover have "Suc (length xs - 1) = length xs" using h by simp
      ultimately have "rel_close (length xs)
           (fadd (pairwise_sum (take h xs)) (pairwise_sum (drop h xs))) (sum_list xs)"
        by simp
      then show ?thesis
        using ge8 False by (subst pairwise_sum.simps) (simp add: h_def)
    qed
  qed
qed

lemma rel_close_trans:
  assumes "rel_close j a b" and "rel_close k b c"
  shows "rel_close (j + k) a c"
proof -
  define Ej where "Ej = (1 + unit_roundoff) ^ j - 1"
  define Ek where "Ek = (1 + unit_roundoff) ^ k - 1"
  have Ej: "0 \<le> Ej" unfolding Ej_def using unit_roundoff_pos by (simp add: one_le_power)
  have ab: "\<bar>a - b\<bar> \<le> Ej * b" and b: "0 \<le> b"
    using assms(1) by (simp_all add: rel_close_def Ej_def)
  have bc: "\<bar>b - c\<bar> \<le> Ek * c" and c: "0 \<le> c"
    using assms(2) by (simp_all add: rel_close_def Ek_def)
  have "b \<le> c + Ek * c" using bc by linarith
  then have "Ej * b \<le> Ej * (c + Ek * c)" using Ej by (rule mult_left_mono)
  then have "\<bar>a - c\<bar> \<le> Ej * (c + Ek * c) + Ek * c" using ab bc by linarith
  also have "\<dots> = ((1 + unit_roundoff) ^ (j + k) - 1) * c"
    by (simp add: Ej_def Ek_def power_add algebra_simps)
  finally show ?thesis using c by (simp add: rel_close_def)
qed

lemma rel_close_sum_list:
  "\<forall>i\<in>set xs. rel_close k (f i) (g i) \<Longrightarrow>
   rel_close k (sum_list (map f xs)) (sum_list (map g xs))"
proof (induction xs)
  case Nil
  then show ?case by (simp add: rel_close_def)
next
  case (Cons x xs)
  then show ?case by (simp add: rel_close_add)
qed

lemma rel_close_abs:
  "rel_close k a b \<Longrightarrow> \<bar>a - b\<bar> \<le> ((1 + unit_roundoff) ^ k - 1) * b"
  by (simp add: rel_close_def)

lemma power_one_plus_bound:
  fixes u :: rat
  assumes "0 \<le> u" and "of_nat m * u \<le> 1"
  shows "(1 + u) ^ m \<le> 1 + of_nat m * u + (of_nat m * u)\<^sup>2"
  using assms(2)
proof (induction m)
  case 0
  then show ?case by simp
next
  case (Suc m)
  have mu: "of_nat m * u \<le> 1"
    using Suc.prems assms(1) by (simp add: algebra_simps)
  have IH: "(1 + u) ^ m \<le> 1 + of_nat m * u + (of_nat m * u)\<^sup>2"
    using Suc.IH mu by simp
  have "(1 + u) ^ Suc m = (1 + u) ^ m * (1 + u)" by simp
  also have "\<dots> \<le> (1 + of_nat m * u + (of_nat m * u)\<^sup>2) * (1 + u)"
    using IH assms(1) by (intro mult_right_mono) simp_all
  also have "\<dots> \<le> 1 + of_nat (Suc m) * u + (of_nat (Suc m) * u)\<^sup>2"
  proof -
    define a where "a = of_nat m * u"
    have a0: "0 \<le> a" using assms(1) by (simp add: a_def)
    have a1: "a \<le> 1" using mu by (simp add: a_def)
    have "a * a \<le> 1 * a" using a1 a0 by (rule mult_right_mono)
    then have aa: "a * a \<le> a" by simp
    have "(a * a) * u \<le> a * u" using aa assms(1) by (rule mult_right_mono)
    moreover have "0 \<le> u * u" using assms(1) by simp
    ultimately have le: "a * a * u \<le> a * u + u * u" by linarith
    have l: "(1 + a + a\<^sup>2) * (1 + u) = 1 + (a + u) + (a * a + a * u + a * a * u)"
      by (simp add: power2_eq_square algebra_simps)
    have "of_nat (Suc m) * u = a + u" by (simp add: a_def algebra_simps)
    then have r: "1 + of_nat (Suc m) * u + (of_nat (Suc m) * u)\<^sup>2
                  = 1 + (a + u) + (a * a + 2 * (a * u) + u * u)"
      by (simp add: power2_eq_square algebra_simps)
    have "0 \<le> a * u" using a0 assms(1) by simp
    then have "1 + (a + u) + (a * a + a * u + a * a * u)
               \<le> 1 + (a + u) + (a * a + 2 * (a * u) + u * u)"
      using le by linarith
    then show ?thesis unfolding a_def [symmetric] l r .
  qed
  finally show ?case .
qed

lemma power_one_plus_bound2:
  fixes u :: rat
  assumes "0 \<le> u" and "of_nat m * u \<le> 1"
  shows "(1 + u) ^ m - 1 \<le> 2 * (of_nat m * u)"
proof -
  have "0 \<le> of_nat m * u" using assms(1) by simp
  then have "(of_nat m * u)\<^sup>2 \<le> 1 * (of_nat m * u)"
    unfolding power2_eq_square using assms(2) by (intro mult_right_mono) simp_all
  then show ?thesis
    using power_one_plus_bound [OF assms] by simp
qed

lemma floor_near_grid:
  fixes T Tf :: rat
  assumes grid: "T * (2 * of_nat n) = of_int z" and n: "0 < n"
    and near: "\<bar>Tf - T\<bar> < 1 / (2 * of_nat n)" and pos: "0 < T"
  shows "0 \<le> Tf \<and> (\<lfloor>Tf\<rfloor> = \<lfloor>T\<rfloor> \<or> (\<lfloor>Tf\<rfloor> = \<lfloor>T\<rfloor> - 1 \<and> of_int \<lfloor>T\<rfloor> = T))"
proof -
  define N :: rat where "N = 2 * of_nat n"
  have Npos: "0 < N" and N2: "2 \<le> N" using n by (simp_all add: N_def)
  have inv: "1 / N \<le> 1 / 2" using N2 by (simp add: field_simps)
  have T: "T = of_int z / N" using grid Npos by (simp add: N_def field_simps)
  have near': "\<bar>Tf - T\<bar> < 1 / N" using near by (simp add: N_def)
  define m where "m = \<lfloor>T\<rfloor>"
  have m: "of_int m \<le> T" "T < of_int m + 1" unfolding m_def by linarith+
  have zpos: "0 < z"
  proof -
    have "0 < T * N" using pos Npos by simp
    then have "(0 :: rat) < of_int z" using grid by (simp add: N_def)
    then show ?thesis by simp
  qed
  then have "1 \<le> z" by simp
  then have "(1 :: rat) \<le> of_int z" by (simp only: of_int_1_le_iff)
  then have "1 / N \<le> T" unfolding T using Npos by (simp add: divide_right_mono)
  then have Tf0: "0 \<le> Tf" using near' by linarith
  show ?thesis
  proof (cases "of_int m = T")
    case True
    have "of_int m - 1 < Tf" "Tf < of_int m + 1"
      using near' inv True by linarith+
    then have "\<lfloor>Tf\<rfloor> = m \<or> \<lfloor>Tf\<rfloor> = m - 1"
      by (cases "of_int m \<le> Tf") (auto simp: floor_eq_iff)
    then show ?thesis using True Tf0 by (auto simp: m_def)
  next
    case False
    then have lt: "of_int m < T" using m(1) by simp
    have "of_int m * N < of_int z" using lt Npos unfolding T by (simp add: field_simps)
    then have "(of_int (m * (2 * int n)) :: rat) < of_int z" by (simp add: N_def)
    then have "m * (2 * int n) < z" by (simp only: of_int_less_iff)
    then have "m * (2 * int n) + 1 \<le> z" by simp
    then have "(of_int (m * (2 * int n) + 1) :: rat) \<le> of_int z" by (simp only: of_int_le_iff)
    then have "of_int m * N + 1 \<le> of_int z" by (simp add: N_def)
    then have "(of_int m * N + 1) / N \<le> of_int z / N"
      using Npos by (intro divide_right_mono) simp_all
    moreover have "(of_int m * N + 1) / N = of_int m + 1 / N"
      using Npos by (simp add: add_divide_distrib)
    ultimately have lo: "of_int m + 1 / N \<le> T"
      unfolding T by simp
    have "of_int z < (of_int m + 1) * N" using m(2) Npos unfolding T by (simp add: field_simps)
    then have "(of_int z :: rat) < of_int ((m + 1) * (2 * int n))" by (simp add: N_def)
    then have "z < (m + 1) * (2 * int n)" by (simp only: of_int_less_iff)
    then have "z + 1 \<le> (m + 1) * (2 * int n)" by simp
    then have "(of_int (z + 1) :: rat) \<le> of_int ((m + 1) * (2 * int n))"
      by (simp only: of_int_le_iff)
    then have "of_int z + 1 \<le> (of_int m + 1) * N" by (simp add: N_def)
    then have "of_int z \<le> (of_int m + 1) * N - 1" by simp
    then have "of_int z / N \<le> ((of_int m + 1) * N - 1) / N"
      using Npos by (intro divide_right_mono) simp_all
    moreover have "((of_int m + 1) * N - 1) / N = of_int m + 1 - 1 / N"
      using Npos by (simp add: diff_divide_distrib)
    ultimately have hi: "T \<le> of_int m + 1 - 1 / N"
      unfolding T by simp
    have "of_int m < Tf" "Tf < of_int m + 1"
      using near' lo hi by linarith+
    then have "\<lfloor>Tf\<rfloor> = m" by (simp add: floor_eq_iff)
    then show ?thesis using Tf0 by (simp add: m_def)
  qed
qed

section \<open>The mask of the debias engine\<close>

lemma set_ones_length: "length (set_ones m flip) = length m"
  unfolding set_ones_def by (induction flip arbitrary: m) simp_all

lemma set_ones_nth:
  "i < length m \<Longrightarrow> set_ones m flip ! i = (if i \<in> set flip then 1 else m ! i)"
  unfolding set_ones_def
proof (induction flip arbitrary: m)
  case Nil
  then show ?case by simp
next
  case (Cons j flip)
  have "foldl (\<lambda>m i. m[i := 1]) (m[j := 1]) flip ! i
        = (if i \<in> set flip then 1 else m[j := 1] ! i)"
    using Cons.prems by (intro Cons.IH) simp
  then show ?case using Cons.prems by (auto simp: nth_list_update)
qed

lemma hamming_weight_set_ones:
  assumes "distinct flip" and "set flip \<subseteq> {..<L}"
  shows "hamming_weight_count (set_ones (replicate L 0) flip) = length flip"
proof -
  let ?m = "set_ones (replicate L (0 :: uint8)) flip"
  have len: "length ?m = L" by (simp add: set_ones_length)
  have "hamming_weight_count ?m = card {i. i < length ?m \<and> ?m ! i = 1}"
    unfolding hamming_weight_count_def by (rule length_filter_conv_card)
  also have "{i. i < length ?m \<and> ?m ! i = 1} = set flip"
    using assms(2) by (auto simp: len set_ones_nth split: if_splits)
  also have "card (set flip) = length flip"
    using assms(1) by (rule distinct_card)
  finally show ?thesis .
qed

lemma mean_per_bit_one_rate:
  assumes "samples \<noteq> []" and "\<forall>s\<in>set samples. length s = L \<and> is_bits s"
  shows "np_mean_axis0 samples = Inr (MeanVector (map (one_rate samples) [0..<L]))"
proof -
  have "column_sum samples i = length (filter (\<lambda>s. s ! i = 1) samples)" if "i < L" for i
    using assms(2) that by (intro column_sum_count) simp
  then have "map (\<lambda>i. of_nat (column_sum samples i) / of_nat (length samples)) [0..<L]
             = map (one_rate samples) [0..<L]"
    by (simp add: one_rate_def)
  moreover have "np_mean_axis0 samples
     = Inr (MeanVector (map (\<lambda>i. of_nat (column_sum samples i) / of_nat (length samples)) [0..<L]))"
    using assms by (intro np_mean_axis0_cohort) simp_all
  ultimately show ?thesis by simp
qed

lemma rotating_random_draws: "draws_without_replacement rotating_random"
  unfolding draws_without_replacement_def rotating_random_def
  by (auto simp: Let_def dest: in_set_takeD)

lemma create_xor_mask_cases:
  assumes mean: "np_mean_axis0 samples = Inr (MeanVector ms)" and ne: "ms \<noteq> []"
    and R: "draws_without_replacement R"
    and k: "k = min (py_int_of_float
                       (fl64 (fl64 (1 / 2 - np_mean_f64 (map fl64 ms)) * of_nat (length ms))))
                    (int (length (stable_indices_of (map fl64 ms))))"
  shows "k < 0 \<Longrightarrow> fst (create_xor_mask R samples g) = Inl ValueError"
    and "0 \<le> k \<Longrightarrow> \<exists>flip. fst (create_xor_mask R samples g)
                             = Inr (set_ones (replicate (length ms) 0) flip)
            \<and> length flip = nat k \<and> distinct flip
            \<and> set flip \<subseteq> set (stable_indices_of (map fl64 ms))"
proof -
  show "fst (create_xor_mask R samples g) = Inl ValueError" if "k < 0"
    using that ne by (simp add: create_xor_mask_def mean Let_def np_random_choice_def k [symmetric])
next
  assume k0: "0 \<le> k"
  define pool where "pool = stable_indices_of (map fl64 ms)"
  define flip where "flip = fst (rng_choice R (rng_seed R 42) pool (nat k))"
  have dist: "distinct pool"
    by (simp add: pool_def stable_indices_of_def)
  have kle: "nat k \<le> length pool"
    using k k0 by (simp add: pool_def)
  have c: "length flip = nat k \<and> distinct flip \<and> set flip \<subseteq> set pool"
    using R dist kle unfolding draws_without_replacement_def flip_def Let_def by blast
  have "set pool \<subseteq> {..<length ms}"
    by (auto simp: pool_def stable_indices_of_def)
  with c have inr: "list_all (\<lambda>i. i < length ms) flip"
    by (auto simp: list_all_iff)
  have k': "min (py_int_of_float
                   (fl64 (fl64 (1 / 2 - np_mean_f64 (map fl64 ms)) * of_nat (length ms))))
                (int (length pool)) = k"
    using k by (simp add: pool_def)
  obtain x1 x2 where ch: "rng_choice R (rng_seed R 42) pool (nat k) = (x1, x2)"
    by (cases "rng_choice R (rng_seed R 42) pool (nat k)")
  then have x1: "x1 = flip"
    by (simp add: flip_def)
  have "\<not> int (length pool) < k"
    using k by (simp add: pool_def)
  then have "fst (create_xor_mask R samples g) = Inr (set_ones (replicate (length ms) 0) flip)"
    using k0 ne inr
    by (simp add: create_xor_mask_def mean Let_def np_random_choice_def
        pool_def [symmetric] k' ch x1)
  with c show "\<exists>flip. fst (create_xor_mask R samples g)
                             = Inr (set_ones (replicate (length ms) 0) flip)
            \<and> length flip = nat k \<and> distinct flip
            \<and> set flip \<subseteq> set (stable_indices_of (map fl64 ms))"
    unfolding pool_def by blast
qed

lemma stable_indices_of_rate_f64:
  "stable_indices_of (map fl64 (map (one_rate samples) [0..<L])) = eligible_f64 samples L"
  unfolding stable_indices_of_def eligible_f64_def rate_f64_def
  by (rule filter_cong) simp_all

lemma map_rate_f64: "map fl64 (map (one_rate samples) [0..<L]) = map (rate_f64 samples) [0..<L]"
  by (simp add: rate_f64_def)

lemma one_rate_nonneg: "0 \<le> one_rate samples i"
  by (simp add: one_rate_def)

lemma eligible_f64_imp_eligible:
  "rate_f64 samples i < fl64 (5 / 100) \<Longrightarrow> one_rate samples i < 5 / 100"
proof (rule ccontr)
  assume a: "rate_f64 samples i < fl64 (5 / 100)" and "\<not> one_rate samples i < 5 / 100"
  then have "5 / 100 \<le> one_rate samples i" by simp
  then have "fl64 (5 / 100) \<le> fl64 (one_rate samples i)"
    by (intro fl64_mono) simp_all
  with a show False by (simp add: rate_f64_def)
qed

lemma eligible_f64_subset: "set (eligible_f64 samples L) \<subseteq> set (eligible samples L)"
  using eligible_f64_imp_eligible [of samples] by (auto simp: eligible_f64_def eligible_def)

lemma length_eligible_f64: "length (eligible_f64 samples L) \<le> length (eligible samples L)"
  unfolding eligible_f64_def eligible_def
  by (rule length_filter_mono) (rule eligible_f64_imp_eligible)

lemma fl64_threshold: "fl64 (5 / 100) = 3602879701896397 / 72057594037927936"
  by code_simp

lemma fl64_below_threshold:
  "fl64 (1 / 20 - 1 / (20 * 2 ^ 55)) = 7205759403792793 / 144115188075855872"
  by code_simp

lemma eligible_imp_eligible_f64:
  assumes n: "length samples < 2 ^ 55" and r: "one_rate samples i < 5 / 100"
  shows "rate_f64 samples i < fl64 (5 / 100)"
proof -
  define n where "n = length samples"
  define k where "k = length (filter (\<lambda>s. s ! i = 1) samples)"
  have rate: "one_rate samples i = of_nat k / of_nat n"
    by (simp add: one_rate_def k_def n_def)
  have le: "one_rate samples i \<le> 1 / 20 - 1 / (20 * 2 ^ 55)"
  proof (cases "n = 0")
    case True
    then show ?thesis by (simp add: rate)
  next
    case False
    then have npos: "(0 :: rat) < of_nat n" by simp
    have "(of_nat k :: rat) * 20 < of_nat n"
      using r npos by (simp add: rate pos_divide_less_eq)
    then have "(of_nat (k * 20) :: rat) < of_nat n" by simp
    then have "k * 20 < n" by (simp only: of_nat_less_iff)
    then have "k * 20 + 1 \<le> n" by simp
    then have "(of_nat (k * 20 + 1) :: rat) \<le> of_nat n" by (simp only: of_nat_le_iff)
    then have a: "(of_nat k :: rat) * 20 + 1 \<le> of_nat n" by simp
    have "n \<le> 2 ^ 55" using n by (simp add: n_def)
    then have "(of_nat n :: rat) \<le> of_nat (2 ^ 55)" by (simp only: of_nat_le_iff)
    then have b: "(of_nat n :: rat) \<le> 2 ^ 55" by simp
    have "(of_nat k :: rat) / of_nat n \<le> (of_nat n - 1) / 20 / of_nat n"
      using a npos by (intro divide_right_mono) simp_all
    also have "\<dots> = 1 / 20 - 1 / (20 * of_nat n)"
      using npos by (simp add: field_simps)
    also have "\<dots> \<le> 1 / 20 - 1 / (20 * 2 ^ 55)"
    proof -
      have "1 / (20 * 2 ^ 55) \<le> 1 / (20 * (of_nat n :: rat))"
        using b npos by (intro divide_left_mono) simp_all
      then show ?thesis by simp
    qed
    finally show ?thesis by (simp add: rate)
  qed
  have "fl64 (one_rate samples i) \<le> fl64 (1 / 20 - 1 / (20 * 2 ^ 55))"
    using le by (intro fl64_mono) (simp_all add: one_rate_nonneg)
  then show ?thesis
    unfolding rate_f64_def fl64_threshold fl64_below_threshold by simp
qed

lemma eligible_f64_eq:
  assumes "length samples < 2 ^ 55"
  shows "eligible_f64 samples L = eligible samples L"
  unfolding eligible_f64_def eligible_def
proof (rule filter_cong [OF refl])
  fix i
  show "(rate_f64 samples i < fl64 (5 / 100)) = (one_rate samples i < 5 / 100)"
    using eligible_imp_eligible_f64 [OF assms] eligible_f64_imp_eligible by blast
qed

lemma sum_list_rates:
  "n \<noteq> 0 \<Longrightarrow>
   sum_list (map (\<lambda>i. of_nat (c i) / of_nat n) xs) = (of_nat (sum_list (map c xs)) / of_nat n :: rat)"
  by (induction xs) (simp_all add: add_divide_distrib)

lemma global_rate_f64_close:
  "rel_close (L + 2) (global_rate_f64 samples L) (global_rate samples L)"
proof (cases "L = 0")
  case True
  then show ?thesis
    by (simp add: global_rate_f64_def global_rate_def np_mean_f64_def fl64_def rel_close_def)
next
  case False
  define xs where "xs = map (rate_f64 samples) [0..<L]"
  define S where "S = sum_list (map (one_rate samples) [0..<L])"
  have "rel_close (Suc 0) (rate_f64 samples i) (one_rate samples i)" for i
    unfolding rate_f64_def by (intro rel_close_fl64 rel_close_refl one_rate_nonneg)
  then have c2: "rel_close (Suc 0) (sum_list xs) S"
    unfolding xs_def S_def by (intro rel_close_sum_list) simp
  have pos: "\<forall>x\<in>set xs. 0 \<le> x"
    by (auto simp: xs_def rate_f64_def intro: fl64_nonneg one_rate_nonneg)
  have "rel_close (length xs) (pairwise_sum xs) (sum_list xs)"
    using pos by (rule pairwise_sum_close)
  then have "rel_close (length xs + Suc 0) (pairwise_sum xs) S"
    using c2 by (rule rel_close_trans)
  then have "rel_close (L + 1) (pairwise_sum xs) S"
    by (simp add: xs_def)
  then have "rel_close (L + 1) (pairwise_sum xs / of_nat L) (S / of_nat L)"
    using False by (intro rel_close_divide) simp_all
  then have "rel_close (Suc (L + 1)) (fl64 (pairwise_sum xs / of_nat L)) (S / of_nat L)"
    by (rule rel_close_fl64)
  then show ?thesis
    by (simp add: global_rate_f64_def global_rate_def np_mean_f64_def xs_def S_def)
qed

lemma num_to_flip_near_exact:
  assumes ne: "samples \<noteq> []" and L: "0 < L"
    and feas: "length samples * L * (L + 4) < 2 ^ 52"
    and low: "global_rate samples L < 1 / 2"
  shows "0 \<le> fl64 (fl64 (1 / 2 - global_rate_f64 samples L) * of_nat L)
       \<and> (\<lfloor>fl64 (fl64 (1 / 2 - global_rate_f64 samples L) * of_nat L)\<rfloor>
            = \<lfloor>(1 / 2 - global_rate samples L) * of_nat L\<rfloor>
          \<or> (\<lfloor>fl64 (fl64 (1 / 2 - global_rate_f64 samples L) * of_nat L)\<rfloor>
               = \<lfloor>(1 / 2 - global_rate samples L) * of_nat L\<rfloor> - 1
             \<and> of_int \<lfloor>(1 / 2 - global_rate samples L) * of_nat L\<rfloor>
                 = (1 / 2 - global_rate samples L) * of_nat L))"
proof -
  define n where "n = length samples"
  define u where "u = unit_roundoff"
  define g where "g = global_rate samples L"
  define hw where "hw = global_rate_f64 samples L"
  define d where "d = 1 / 2 - hw"
  define t where "t = fl64 d"
  define Tf where "Tf = fl64 (t * of_nat L)"
  define T where "T = (1 / 2 - g) * of_nat L"
  define E2 where "E2 = (1 + u) ^ (L + 2) - 1"
  define E3 where "E3 = (1 + u) ^ (L + 3) - 1"
  define E4 where "E4 = (1 + u) ^ (L + 4) - 1"
  define Lr :: rat where "Lr = of_nat L"
  have npos: "0 < n" using ne by (simp add: n_def)
  have upos: "0 < u" by (simp add: u_def unit_roundoff_pos)
  have Lpos: "0 < Lr" using L by (simp add: Lr_def)
  have "1 \<le> (1 + u) ^ (L + 2)" using upos by (intro one_le_power) simp
  then have E2pos: "0 \<le> E2" unfolding E2_def by linarith
  have "1 \<le> (1 + u) ^ (L + 3)" using upos by (intro one_le_power) simp
  then have E3pos: "0 \<le> E3" unfolding E3_def by linarith
  have E3eq: "E3 = u * (1 + E2) + E2"
    by (simp add: E3_def E2_def eval_nat_numeral algebra_simps)
  have E4eq: "E4 = u * (1 + E3) + E3"
    by (simp add: E4_def E3_def eval_nat_numeral algebra_simps)
  have g0: "0 \<le> g"
    unfolding g_def global_rate_def
    by (intro divide_nonneg_nonneg sum_list_nonneg) (auto simp: one_rate_nonneg)
  have ghalf: "g < 1 / 2" using low by (simp add: g_def)
  have "rel_close (L + 2) hw g"
    unfolding hw_def g_def by (rule global_rate_f64_close)
  then have "\<bar>hw - g\<bar> \<le> E2 * g"
    by (simp add: rel_close_def E2_def u_def)
  moreover have "E2 * g \<le> E2 * (1 / 2)"
    using ghalf E2pos by (intro mult_left_mono) simp_all
  ultimately have hwg: "\<bar>hw - g\<bar> \<le> E2 / 2" by simp
  have gabs: "\<bar>1 / 2 - g\<bar> \<le> 1 / 2" using g0 ghalf by linarith
  have "\<bar>d\<bar> \<le> \<bar>1 / 2 - g\<bar> + \<bar>hw - g\<bar>" unfolding d_def by linarith
  then have "\<bar>d\<bar> \<le> 1 / 2 + E2 / 2" using gabs hwg by linarith
  then have dabs: "\<bar>d\<bar> \<le> (1 + E2) / 2" by (simp add: add_divide_distrib)
  have "\<bar>t - d\<bar> \<le> u * \<bar>d\<bar>"
    unfolding t_def u_def by (rule fl64_error)
  moreover have "u * \<bar>d\<bar> \<le> u * ((1 + E2) / 2)"
    using dabs upos by (intro mult_left_mono) simp_all
  ultimately have td: "\<bar>t - d\<bar> \<le> u * ((1 + E2) / 2)" by linarith
  have tg: "\<bar>t - (1 / 2 - g)\<bar> \<le> E3 / 2"
  proof -
    have "\<bar>t - (1 / 2 - g)\<bar> \<le> \<bar>t - d\<bar> + \<bar>hw - g\<bar>"
      unfolding d_def by linarith
    also have "\<dots> \<le> u * ((1 + E2) / 2) + E2 / 2"
      using td hwg by linarith
    also have "\<dots> = E3 / 2"
      unfolding E3eq by (simp add: field_simps)
    finally show ?thesis .
  qed
  have "\<bar>t\<bar> \<le> \<bar>t - (1 / 2 - g)\<bar> + \<bar>1 / 2 - g\<bar>" by linarith
  then have "\<bar>t\<bar> \<le> 1 / 2 + E3 / 2" using gabs tg by linarith
  then have tabs: "\<bar>t\<bar> \<le> (1 + E3) / 2" by (simp add: add_divide_distrib)
  have "\<bar>Tf - t * Lr\<bar> \<le> u * \<bar>t * Lr\<bar>"
    unfolding Tf_def u_def Lr_def by (rule fl64_error)
  moreover have "\<bar>t * Lr\<bar> = \<bar>t\<bar> * Lr"
    using Lpos by (simp add: abs_mult)
  moreover have "\<bar>t\<bar> * Lr \<le> (1 + E3) / 2 * Lr"
    using tabs Lpos by (intro mult_right_mono) simp_all
  moreover have "u * (\<bar>t\<bar> * Lr) \<le> u * ((1 + E3) / 2 * Lr)"
    using calculation(3) upos by (intro mult_left_mono) simp_all
  ultimately have e1: "\<bar>Tf - t * Lr\<bar> \<le> u * ((1 + E3) / 2 * Lr)" by simp
  have e2: "\<bar>t * Lr - T\<bar> \<le> E3 / 2 * Lr"
  proof -
    have "t * Lr - T = (t - (1 / 2 - g)) * Lr"
      by (simp add: T_def Lr_def algebra_simps)
    then have "\<bar>t * Lr - T\<bar> = \<bar>t - (1 / 2 - g)\<bar> * Lr"
      using Lpos by (simp add: abs_mult)
    also have "\<dots> \<le> E3 / 2 * Lr"
      using tg Lpos by (intro mult_right_mono) simp_all
    finally show ?thesis .
  qed
  have near1: "\<bar>Tf - T\<bar> \<le> E4 / 2 * Lr"
  proof -
    have "\<bar>Tf - T\<bar> \<le> \<bar>Tf - t * Lr\<bar> + \<bar>t * Lr - T\<bar>" by linarith
    also have "\<dots> \<le> u * ((1 + E3) / 2 * Lr) + E3 / 2 * Lr"
      using e1 e2 by linarith
    also have "\<dots> = E4 / 2 * Lr"
      unfolding E4eq by (simp add: field_simps)
    finally show ?thesis .
  qed
  have feas': "(of_nat (n * L * (L + 4)) :: rat) < of_nat (2 ^ 52)"
    using feas unfolding n_def by (simp only: of_nat_less_iff)
  then have feasr: "of_nat n * Lr * of_nat (L + 4) < (2 ^ 52 :: rat)"
    by (simp add: Lr_def)
  have nL1: "(1 :: rat) \<le> of_nat n * Lr"
  proof -
    have "1 \<le> n * L" using npos L by (simp add: Suc_le_eq)
    then have "(of_nat 1 :: rat) \<le> of_nat (n * L)" by (simp only: of_nat_le_iff)
    then show ?thesis by (simp add: Lr_def)
  qed
  have m4: "of_nat (L + 4) * u \<le> 1"
  proof -
    have "1 * (of_nat (L + 4) :: rat) \<le> of_nat n * Lr * of_nat (L + 4)"
      using nL1 by (intro mult_right_mono) simp_all
    then have "(of_nat (L + 4) :: rat) \<le> of_nat n * Lr * of_nat (L + 4)"
      by (simp only: mult_1)
    then have "(of_nat (L + 4) :: rat) < 2 ^ 52" using feasr by (rule le_less_trans)
    then have "of_nat (L + 4) * u < 2 ^ 52 * u"
      using upos by (intro mult_strict_right_mono) simp_all
    then show ?thesis by (simp add: u_def unit_roundoff_def)
  qed
  have E4le: "E4 \<le> 2 * (of_nat (L + 4) * u)"
    unfolding E4_def using upos m4 by (intro power_one_plus_bound2) simp_all
  have "E4 / 2 * Lr \<le> (2 * (of_nat (L + 4) * u)) / 2 * Lr"
    using E4le Lpos by (intro mult_right_mono divide_right_mono) simp_all
  then have near2: "\<bar>Tf - T\<bar> \<le> of_nat (L + 4) * u * Lr"
    using near1 by simp
  have small: "of_nat (L + 4) * u * Lr < 1 / (2 * of_nat n)"
  proof -
    have "of_nat n * Lr * of_nat (L + 4) * u < 2 ^ 52 * u"
      using feasr upos by (intro mult_strict_right_mono) simp_all
    then have "of_nat n * (of_nat (L + 4) * u * Lr) < 1 / 2"
      by (simp add: u_def unit_roundoff_def algebra_simps)
    then have "of_nat (L + 4) * u * Lr < 1 / 2 / of_nat n"
      using npos by (simp add: pos_less_divide_eq algebra_simps)
    then show ?thesis by simp
  qed
  have near: "\<bar>Tf - T\<bar> < 1 / (2 * of_nat n)"
    using near2 small by linarith
  have Tpos: "0 < T"
    unfolding T_def using ghalf L by simp
  have grid: "\<exists>z. T * (2 * of_nat n) = of_int z"
  proof -
    define K where "K = sum_list (map (\<lambda>i. length (filter (\<lambda>s. s ! i = 1) samples)) [0..<L])"
    have "sum_list (map (one_rate samples) [0..<L]) = of_nat K / of_nat n"
      unfolding K_def one_rate_def n_def [symmetric]
      using npos by (intro sum_list_rates) simp
    then have "g = of_nat K / of_nat n / Lr"
      by (simp add: g_def global_rate_def Lr_def)
    then have "T = Lr / 2 - of_nat K / of_nat n"
      using Lpos by (simp add: T_def Lr_def [symmetric] field_simps)
    then have "T * (2 * of_nat n) = Lr * of_nat n - 2 * of_nat K"
      using npos by (simp add: field_simps)
    also have "\<dots> = of_int (int L * int n - 2 * int K)"
      by (simp add: Lr_def)
    finally show ?thesis by blast
  qed
  then obtain z where z: "T * (2 * of_nat n) = of_int z" by blast
  from floor_near_grid [OF z npos near Tpos]
  show ?thesis
    unfolding Tf_def t_def d_def hw_def T_def g_def .
qed

lemma xor_mask_f64_bounds:
  assumes R: "draws_without_replacement R"
    and ne: "samples \<noteq> []"
    and coh: "\<forall>s\<in>set samples. length s = L \<and> is_bits s"
  shows "\<forall>xmask. fst (create_xor_mask R samples g) = Inr xmask \<longrightarrow>
            length xmask = L
            \<and> (\<forall>i<L. one_rate samples i \<ge> 5 / 100 \<longrightarrow> xmask ! i = 0)
            \<and> hamming_weight_count xmask \<le> length (eligible samples L)
            \<and> int (hamming_weight_count xmask)
                = min (num_to_flip_f64 samples L) (int (length (eligible_f64 samples L)))"
    and "0 < L \<Longrightarrow> 0 \<le> num_to_flip_f64 samples L \<Longrightarrow>
           \<exists>xmask. fst (create_xor_mask R samples g) = Inr xmask"
proof -
  define ms where "ms = map (one_rate samples) [0..<L]"
  define k where "k = min (num_to_flip_f64 samples L) (int (length (eligible_f64 samples L)))"
  have mean: "np_mean_axis0 samples = Inr (MeanVector ms)"
    unfolding ms_def using ne coh by (rule mean_per_bit_one_rate)
  have lms: "length ms = L" by (simp add: ms_def)
  have pool: "stable_indices_of (map fl64 ms) = eligible_f64 samples L"
    unfolding ms_def by (rule stable_indices_of_rate_f64)
  have hw: "np_mean_f64 (map fl64 ms) = global_rate_f64 samples L"
    unfolding ms_def global_rate_f64_def map_rate_f64 ..
  have keq: "k = min (py_int_of_float
                       (fl64 (fl64 (1 / 2 - np_mean_f64 (map fl64 ms)) * of_nat (length ms))))
                     (int (length (stable_indices_of (map fl64 ms))))"
    unfolding pool lms hw by (simp add: k_def num_to_flip_f64_def)
  have sub: "set (eligible_f64 samples L) \<subseteq> {..<L}"
    by (auto simp: eligible_f64_def)
  have good: "length xmask = L
            \<and> (\<forall>i<L. one_rate samples i \<ge> 5 / 100 \<longrightarrow> xmask ! i = 0)
            \<and> hamming_weight_count xmask = nat k \<and> 0 \<le> k"
    if res: "fst (create_xor_mask R samples g) = Inr xmask" for xmask
  proof -
    have L0: "ms \<noteq> []"
      using res mean by (auto simp: create_xor_mask_def)
    have k0: "0 \<le> k"
      using create_xor_mask_cases(1) [OF mean L0 R keq, of g] res by force
    obtain flip where flip: "fst (create_xor_mask R samples g)
                             = Inr (set_ones (replicate (length ms) 0) flip)"
        "length flip = nat k" "distinct flip"
        "set flip \<subseteq> set (stable_indices_of (map fl64 ms))"
      using create_xor_mask_cases(2) [OF mean L0 R keq k0, of g] by blast
    have xm: "xmask = set_ones (replicate L 0) flip"
      using res flip(1) by (simp add: lms)
    have fsub: "set flip \<subseteq> {..<L}"
      using flip(4) sub by (auto simp: pool)
    have "xmask ! i = 0" if "i < L" "one_rate samples i \<ge> 5 / 100" for i
    proof -
      have "i \<notin> set (eligible samples L)"
        using that by (simp add: eligible_def)
      then have "i \<notin> set (eligible_f64 samples L)"
        using eligible_f64_subset by blast
      then have "i \<notin> set flip"
        using flip(4) by (auto simp: pool)
      then show ?thesis
        using that(1) by (simp add: xm set_ones_nth)
    qed
    moreover have "length xmask = L"
      by (simp add: xm set_ones_length)
    moreover have "hamming_weight_count xmask = nat k"
      unfolding xm using flip(3) fsub flip(2) by (simp add: hamming_weight_set_ones)
    ultimately show ?thesis using k0 by blast
  qed
  show "\<forall>xmask. fst (create_xor_mask R samples g) = Inr xmask \<longrightarrow>
            length xmask = L
            \<and> (\<forall>i<L. one_rate samples i \<ge> 5 / 100 \<longrightarrow> xmask ! i = 0)
            \<and> hamming_weight_count xmask \<le> length (eligible samples L)
            \<and> int (hamming_weight_count xmask)
                = min (num_to_flip_f64 samples L) (int (length (eligible_f64 samples L)))"
  proof (intro allI impI)
    fix xmask
    assume "fst (create_xor_mask R samples g) = Inr xmask"
    from good [OF this]
    have g: "length xmask = L" "\<forall>i<L. one_rate samples i \<ge> 5 / 100 \<longrightarrow> xmask ! i = 0"
      "hamming_weight_count xmask = nat k" "0 \<le> k"
      by blast+
    have "k \<le> int (length (eligible_f64 samples L))"
      by (simp add: k_def)
    then have "nat k \<le> length (eligible samples L)"
      using length_eligible_f64 [of samples L] by linarith
    moreover have "int (nat k) = k" using g(4) by simp
    ultimately show "length xmask = L
            \<and> (\<forall>i<L. one_rate samples i \<ge> 5 / 100 \<longrightarrow> xmask ! i = 0)
            \<and> hamming_weight_count xmask \<le> length (eligible samples L)
            \<and> int (hamming_weight_count xmask)
                = min (num_to_flip_f64 samples L) (int (length (eligible_f64 samples L)))"
      using g(1,2,3) unfolding k_def [symmetric] by simp
  qed
  show "\<exists>xmask. fst (create_xor_mask R samples g) = Inr xmask"
    if L0: "0 < L" and N0: "0 \<le> num_to_flip_f64 samples L"
  proof -
    have k0: "0 \<le> k"
      using N0 by (simp add: k_def)
    have msne: "ms \<noteq> []"
      using L0 lms by auto
    obtain flip where "fst (create_xor_mask R samples g)
                             = Inr (set_ones (replicate (length ms) 0) flip)"
      using create_xor_mask_cases(2) [OF mean msne R keq k0, of g] by blast
    then show ?thesis by blast
  qed
qed

lemma xor_mask_count_f64:
  assumes R: "draws_without_replacement R"
    and ne: "samples \<noteq> []"
    and coh: "\<forall>s\<in>set samples. length s = L \<and> is_bits s"
    and L0: "0 < L" and low: "global_rate_f64 samples L \<le> 1 / 2"
  shows "\<exists>xmask. fst (create_xor_mask R samples g) = Inr xmask
           \<and> int (hamming_weight_count xmask)
               = min \<lfloor>fl64 (fl64 (1 / 2 - global_rate_f64 samples L) * of_nat L)\<rfloor>
                     (int (length (eligible_f64 samples L)))"
proof -
  define Tf where "Tf = fl64 (fl64 (1 / 2 - global_rate_f64 samples L) * of_nat L)"
  have "0 \<le> fl64 (1 / 2 - global_rate_f64 samples L)"
    using low by (intro fl64_nonneg) simp
  then have "0 \<le> fl64 (1 / 2 - global_rate_f64 samples L) * of_nat L"
    by simp
  then have Tpos: "0 \<le> Tf"
    unfolding Tf_def by (rule fl64_nonneg)
  then have N: "num_to_flip_f64 samples L = \<lfloor>Tf\<rfloor>"
    by (simp add: num_to_flip_f64_def py_int_of_float_def Tf_def)
  then have "0 \<le> num_to_flip_f64 samples L"
    using Tpos by simp
  from xor_mask_f64_bounds(2) [OF R ne coh L0 this]
  obtain xmask where x: "fst (create_xor_mask R samples g) = Inr xmask" by blast
  with xor_mask_f64_bounds(1) [OF R ne coh, of g]
  have "int (hamming_weight_count xmask)
        = min (num_to_flip_f64 samples L) (int (length (eligible_f64 samples L)))"
    by blast
  with x show ?thesis unfolding N Tf_def by blast
qed

lemma xor_mask_count_exact:
  assumes R: "draws_without_replacement R"
    and ne: "samples \<noteq> []"
    and coh: "\<forall>s\<in>set samples. length s = L \<and> is_bits s"
    and L0: "0 < L" and low: "global_rate samples L < 1 / 2"
    and feas: "length samples * L * (L + 4) < 2 ^ 52"
  shows "\<exists>xmask. fst (create_xor_mask R samples g) = Inr xmask
           \<and> (int (hamming_weight_count xmask)
                 = min \<lfloor>(1 / 2 - global_rate samples L) * of_nat L\<rfloor>
                       (int (length (eligible samples L)))
               \<or> of_int \<lfloor>(1 / 2 - global_rate samples L) * of_nat L\<rfloor>
                    = (1 / 2 - global_rate samples L) * of_nat L
                 \<and> int (hamming_weight_count xmask)
                     = min (\<lfloor>(1 / 2 - global_rate samples L) * of_nat L\<rfloor> - 1)
                           (int (length (eligible samples L))))"
proof -
  define Tf where "Tf = fl64 (fl64 (1 / 2 - global_rate_f64 samples L) * of_nat L)"
  define T where "T = (1 / 2 - global_rate samples L) * of_nat L"
  have near: "0 \<le> Tf" "\<lfloor>Tf\<rfloor> = \<lfloor>T\<rfloor> \<or> (\<lfloor>Tf\<rfloor> = \<lfloor>T\<rfloor> - 1 \<and> of_int \<lfloor>T\<rfloor> = T)"
    using num_to_flip_near_exact [OF ne L0 feas low] unfolding Tf_def T_def by blast+
  have N: "num_to_flip_f64 samples L = \<lfloor>Tf\<rfloor>"
    using near(1) by (simp add: num_to_flip_f64_def py_int_of_float_def Tf_def)
  then have "0 \<le> num_to_flip_f64 samples L"
    using near(1) by simp
  from xor_mask_f64_bounds(2) [OF R ne coh L0 this]
  obtain xmask where x: "fst (create_xor_mask R samples g) = Inr xmask" by blast
  have "1 \<le> L * (L + 4)" using L0 by (simp add: Suc_le_eq)
  then have "length samples * 1 \<le> length samples * (L * (L + 4))"
    by (rule mult_le_mono2)
  then have "length samples \<le> length samples * L * (L + 4)"
    by (simp only: mult_1_right mult.assoc)
  then have "length samples < 2 ^ 52" using feas by (rule le_less_trans)
  moreover have "(2 :: nat) ^ 52 \<le> 2 ^ 55" by simp
  ultimately have "length samples < 2 ^ 55" by (rule less_le_trans)
  then have el: "eligible_f64 samples L = eligible samples L"
    by (rule eligible_f64_eq)
  from x xor_mask_f64_bounds(1) [OF R ne coh, of g]
  have "int (hamming_weight_count xmask)
        = min (num_to_flip_f64 samples L) (int (length (eligible_f64 samples L)))"
    by blast
  then have c: "int (hamming_weight_count xmask) = min \<lfloor>Tf\<rfloor> (int (length (eligible samples L)))"
    unfolding N el .
  from near(2) c have "int (hamming_weight_count xmask)
                 = min \<lfloor>T\<rfloor> (int (length (eligible samples L)))
               \<or> of_int \<lfloor>T\<rfloor> = T
                 \<and> int (hamming_weight_count xmask)
                     = min (\<lfloor>T\<rfloor> - 1) (int (length (eligible samples L)))"
    by auto
  with x show ?thesis unfolding T_def by blast
qed

text \<open>
  On the cohort of the single sample 1111000000 the truncated product is 0: whatever the
  generator, as long as it draws without replacement, no position is drawn and the mask
  of zeros is returned.
\<close>

lemma example_no_flip_mean:
  "np_mean_axis0 [[1, 1, 1, 1, 0, 0, 0, 0, 0, 0]] = Inr (MeanVector [1, 1, 1, 1, 0, 0, 0, 0, 0, 0])"
  by code_simp

lemma example_no_flip_count:
  "(0 :: int) = min (py_int_of_float
                 (fl64 (fl64 (1 / 2 - np_mean_f64 (map fl64 [1, 1, 1, 1, 0, 0, 0, 0, 0, 0]))
                    * of_nat (length [1, 1, 1, 1, 0, 0, 0, 0, 0, 0 :: rat]))))
              (int (length (stable_indices_of (map fl64 [1, 1, 1, 1, 0, 0, 0, 0, 0, 0]))))"
  by code_simp

lemma create_xor_mask_no_flip:
  assumes "draws_without_replacement R"
  shows "fst (create_xor_mask R [[1, 1, 1, 1, 0, 0, 0, 0, 0, 0]] g)
         = Inr [0, 0, 0, 0, 0, 0, 0, 0, 0, 0]"
proof -
  obtain flip where flip:
    "fst (create_xor_mask R [[1, 1, 1, 1, 0, 0, 0, 0, 0, 0]] g)
       = Inr (set_ones (replicate (length [1, 1, 1, 1, 0, 0, 0, 0, 0, 0 :: rat]) 0) flip)"
    "length flip = nat 0"
    using create_xor_mask_cases(2) [OF example_no_flip_mean _ assms example_no_flip_count, of g]
    by auto
  from flip(2) have "flip = []" by simp
  then show ?thesis
    using flip(1) by (simp add: set_ones_def eval_nat_numeral)
qed

text \<open>
  Claim C1 says that for a global 1-rate below 0.5 the number of set bits is
  \<open>min(floor((0.5 - globalRate) * L), |eligible|)\<close>. For the cohort of the single sample
  1111000000 the global rate is 2/5 and six positions are eligible, so this number is 1;
  the code computes \<open>(0.5 - 0.4) * 10\<close> in doubles, which is 0.9999999999999998, and
  sets no bit.
\<close>

theorem xor_mask_floor_counterexample:
  "fst (create_xor_mask rotating_random [[1, 1, 1, 1, 0, 0, 0, 0, 0, 0]] 0)
     = Inr [0, 0, 0, 0, 0, 0, 0, 0, 0, 0]
   \<and> hamming_weight_count [0, 0, 0, 0, 0, 0, 0, 0, 0, 0] = 0
   \<and> global_rate [[1, 1, 1, 1, 0, 0, 0, 0, 0, 0]] 10 = 2 / 5
   \<and> min \<lfloor>(1 / 2 - global_rate [[1, 1, 1, 1, 0, 0, 0, 0, 0, 0]] 10) * 10\<rfloor>
          (int (length (eligible [[1, 1, 1, 1, 0, 0, 0, 0, 0, 0]] 10))) = 1"
  by code_simp

text \<open>
  Claim C1, amended. For a non-empty cohort of bit sequences of equal length \<open>L\<close>, and a
  generator that draws without replacement: every mask that \<open>create_xor_mask\<close> returns has
  length \<open>L\<close>, holds 0 at every position whose 1-rate is at least 0.05, and has at most as
  many set bits as there are positions with 1-rate below 0.05; its number of set bits is
  the minimum of \<open>int((0.5 - globalRate) * L)\<close> and the number of eligible positions, where
  the rates, their mean, the difference and the product are each rounded to double
  precision. When the global 1-rate is below 0.5 and the cohort of \<open>n\<close> samples has
  \<open>n L (L + 4) < 2^52\<close>, a mask is returned and its number of set bits is
  \<open>min(floor((0.5 - globalRate) * L), |eligible|)\<close>, except that when
  \<open>(0.5 - globalRate) * L\<close> is an integer \<open>m\<close>, rounding can make it \<open>min(m - 1, |eligible|)\<close>.
  Without the bound on the size: when the global 1-rate computed in doubles is at most
  0.5, a mask is returned and \<open>int\<close> is the floor of the rounded product. The positions
  eligible in double precision are eligible exactly, and for a cohort of fewer than
  \<open>2^55\<close> samples the two sets are the same.
\<close>

theorem xor_mask_bounds:
  assumes R: "draws_without_replacement R"
    and ne: "samples \<noteq> []"
    and coh: "\<forall>s\<in>set samples. length s = L \<and> is_bits s"
  shows "(\<forall>xmask. fst (create_xor_mask R samples g) = Inr xmask \<longrightarrow>
            length xmask = L
            \<and> (\<forall>i<L. one_rate samples i \<ge> 5 / 100 \<longrightarrow> xmask ! i = 0)
            \<and> hamming_weight_count xmask \<le> length (eligible samples L)
            \<and> int (hamming_weight_count xmask)
                = min (num_to_flip_f64 samples L) (int (length (eligible_f64 samples L))))
       \<and> (0 < L \<and> global_rate samples L < 1 / 2
            \<and> length samples * L * (L + 4) < 2 ^ 52 \<longrightarrow>
            (\<exists>xmask. fst (create_xor_mask R samples g) = Inr xmask
               \<and> (int (hamming_weight_count xmask)
                     = min \<lfloor>(1 / 2 - global_rate samples L) * of_nat L\<rfloor>
                           (int (length (eligible samples L)))
                   \<or> of_int \<lfloor>(1 / 2 - global_rate samples L) * of_nat L\<rfloor>
                        = (1 / 2 - global_rate samples L) * of_nat L
                     \<and> int (hamming_weight_count xmask)
                         = min (\<lfloor>(1 / 2 - global_rate samples L) * of_nat L\<rfloor> - 1)
                               (int (length (eligible samples L))))))
       \<and> (0 < L \<and> global_rate_f64 samples L \<le> 1 / 2 \<longrightarrow>
            (\<exists>xmask. fst (create_xor_mask R samples g) = Inr xmask
               \<and> int (hamming_weight_count xmask)
                   = min \<lfloor>fl64 (fl64 (1 / 2 - global_rate_f64 samples L) * of_nat L)\<rfloor>
                         (int (length (eligible_f64 samples L)))))
       \<and> set (eligible_f64 samples L) \<subseteq> set (eligible samples L)
       \<and> (length samples < 2 ^ 55 \<longrightarrow> eligible_f64 samples L = eligible samples L)"
  using xor_mask_f64_bounds(1) [OF R ne coh, of g] xor_mask_count_exact [OF R ne coh, of g]
    xor_mask_count_f64 [OF R ne coh, of g] eligible_f64_subset [of samples L]
    eligible_f64_eq [of samples L]
  by blast

lemma example_bits: "\<forall>s\<in>set [[0, 0, 0, 1], [0, 0, 0, 1 :: uint8]]. length s = 4 \<and> is_bits s"
  by (simp add: is_bits_def)

lemma example_mask:
  "create_xor_mask rotating_random [[0, 0, 0, 1], [0, 0, 0, 1]] 0 = (Inr [1, 0, 0, 0], 43)"
  by code_simp

lemma example_rate: "global_rate_f64 [[0, 0, 0, 1], [0, 0, 0, 1]] 4 = 1 / 4"
  by code_simp

lemma example_product:
  "fl64 (fl64 (1 / 2 - global_rate_f64 [[0, 0, 0, 1], [0, 0, 0, 1]] 4) * 4) = 1"
  by code_simp

lemma example_eligible: "eligible [[0, 0, 0, 1], [0, 0, 0, 1]] 4 = [0, 1, 2]"
  by code_simp

lemma example_eligible_f64: "eligible_f64 [[0, 0, 0, 1], [0, 0, 0, 1]] 4 = [0, 1, 2]"
  by code_simp

lemma example_exact_rate: "global_rate [[0, 0, 0, 1], [0, 0, 0, 1]] 4 = 1 / 4"
  by code_simp

theorem xor_mask_bounds_witness:
  "[[0, 0, 0, 1], [0, 0, 0, 1 :: uint8]] \<noteq> []
   \<and> list_all (\<lambda>s. length s = 4 \<and> is_bits s) [[0, 0, 0, 1], [0, 0, 0, 1 :: uint8]]
   \<and> global_rate [[0, 0, 0, 1], [0, 0, 0, 1]] 4 < 1 / 2
   \<and> length [[0, 0, 0, 1], [0, 0, 0, 1 :: uint8]] * 4 * (4 + 4) < (2 :: nat) ^ 52
   \<and> global_rate_f64 [[0, 0, 0, 1], [0, 0, 0, 1]] 4 \<le> 1 / 2
   \<and> fst (create_xor_mask rotating_random [[0, 0, 0, 1], [0, 0, 0, 1]] 0) = Inr [1, 0, 0, 0]
   \<and> hamming_weight_count [1, 0, 0, 0] \<le> length (eligible [[0, 0, 0, 1], [0, 0, 0, 1]] 4)
   \<and> int (hamming_weight_count [1, 0, 0, 0])
        = min \<lfloor>(1 / 2 - global_rate [[0, 0, 0, 1], [0, 0, 0, 1]] 4) * 4\<rfloor>
              (int (length (eligible [[0, 0, 0, 1], [0, 0, 0, 1]] 4)))
   \<and> int (hamming_weight_count [1, 0, 0, 0])
        = min \<lfloor>fl64 (fl64 (1 / 2 - global_rate_f64 [[0, 0, 0, 1], [0, 0, 0, 1]] 4) * 4)\<rfloor>
              (int (length (eligible_f64 [[0, 0, 0, 1], [0, 0, 0, 1]] 4)))"
  using xor_mask_bounds [OF rotating_random_draws _ example_bits, of 0]
  by (simp add: example_mask example_rate example_exact_rate example_product example_eligible
      example_eligible_f64 example_bits hamming_weight_count_def)

text \<open>
  On a cohort biased towards 1 the product is negative. When it is -1 or less,
  \<open>num_to_flip\<close> is negative and \<open>np.random.choice\<close> raises, after the generator has been
  seeded; when it is above -1, as for the sample 111100, whose product is
  -0.9999999999999998, \<open>int\<close> truncates it to 0 and the mask of zeros is returned.
\<close>

lemma fl64_nums: "fl64 1 = 1" "fl64 (- (1 / 2)) = - (1 / 2)" "fl64 (- 1) = - 1"
  "np_mean_f64 [1, 1] = 1" "fl64 (1 / 20) = 3602879701896397 / 72057594037927936"
  by code_simp+

lemma create_xor_mask_raises:
  "create_xor_mask R [[1, 1]] g = (Inl ValueError, rng_seed R 42)"
  by (simp add: create_xor_mask_def np_mean_axis0_def column_sum_def Let_def
      py_int_of_float_def np_random_choice_def stable_indices_of_def fl64_nums)

lemma create_xor_mask_truncates:
  "fst (create_xor_mask rotating_random [[1, 1, 1, 1, 0, 0]] 0) = Inr [0, 0, 0, 0, 0, 0]"
  by code_simp

end
